theory Spec2Isabelle
  imports Main "HOL-Library.Word" "HOL-Library.List_Lexorder"
begin

unbundle bit_operations_syntax

section \<open>Data model of the tunneled FM-index\<close>

text \<open>
  The embedding follows \<^verbatim>\<open>tfm_index.hpp\<close> and \<^verbatim>\<open>tfm_index_invert.cpp\<close>.
  Sizes and counters (\<^verbatim>\<open>size_type\<close>, \<^verbatim>\<open>uint64_t\<close>) are natural numbers. Loop
  counters and write cursors run over vectors held in memory and stay below \<open>2\<^sup>6\<^sup>4\<close>.
  The arithmetic of \<^verbatim>\<open>backwardstep\<close> works on a position supplied by the caller, so
  its additions and its subtraction are written with the wrap-around of the 64-bit type
  (\<open>add64\<close>, \<open>sub64\<close>). Bytes (\<^verbatim>\<open>uint8_t\<close>, \<^verbatim>\<open>int_vector<8>\<close>) are
  8-bit words. A bitvector (\<^verbatim>\<open>int_vector<1>\<close>) is a list of booleans.

  The build uses \<^verbatim>\<open>-DNDEBUG\<close> and unchecked \<^verbatim>\<open>operator[]\<close>, so an access out of
  range is undefined behaviour in the source. The model makes each such access an
  error value.
\<close>

type_synonym u8 = "8 word"
type_synonym size_type = nat
type_synonym bit_vector = "bool list"

definition add64 :: "size_type \<Rightarrow> size_type \<Rightarrow> size_type" where
  "add64 a b = nat ((int a + int b) mod 2 ^ 64)"

definition sub64 :: "size_type \<Rightarrow> size_type \<Rightarrow> size_type" where
  "sub64 a b = nat ((int a - int b) mod 2 ^ 64)"

datatype error =
    OutOfRange        \<comment> \<open>read or write past the end of a vector, or a rank/select argument out of range\<close>
  | NullStream        \<comment> \<open>\<^verbatim>\<open>fread\<close> on the null pointer returned by a failed \<^verbatim>\<open>fopen\<close>\<close>
  | NoSupport         \<comment> \<open>query on a rank/select support that was never initialised, or whose tables belong to another vector\<close>
  | BadStream         \<comment> \<open>\<^verbatim>\<open>load\<close> on a stream that does not hold a serialized index\<close>

definition ebind :: "error + 'a \<Rightarrow> ('a \<Rightarrow> error + 'b) \<Rightarrow> error + 'b" where
  "ebind m f = (case m of Inl e \<Rightarrow> Inl e | Inr x \<Rightarrow> f x)"

definition vec_at :: "'a list \<Rightarrow> nat \<Rightarrow> error + 'a" where
  "vec_at xs i = (if i < length xs then Inr (xs ! i) else Inl OutOfRange)"

definition vec_set :: "'a list \<Rightarrow> nat \<Rightarrow> 'a \<Rightarrow> error + 'a list" where
  "vec_set xs i v = (if i < length xs then Inr (xs[i := v]) else Inl OutOfRange)"

subsection \<open>Rank, select and the wavelet tree (the succinct-structure library)\<close>

text \<open>
  The library is an external collaborator; its operations are taken with the meaning the
  specification gives them: \<open>rank_1(i)\<close> is the number of set bits in positions \<open>[0, i)\<close>,
  \<open>select_1(k)\<close> is the position of the \<open>k\<close>-th set bit (counted from 1), and
  \<open>inverse_select(i) = (rank_{L[i]}(i), L[i])\<close>.
\<close>

definition rank1 :: "bit_vector \<Rightarrow> nat \<Rightarrow> nat" where
  "rank1 bv i = length (filter id (take i bv))"

fun select1 :: "bit_vector \<Rightarrow> nat \<Rightarrow> nat option" where
  "select1 [] k = None"
| "select1 (b # bs) k =
     (if k = 0 then None
      else if b then (if k = 1 then Some 0 else map_option Suc (select1 bs (k - 1)))
      else map_option Suc (select1 bs k))"

definition popcount :: "bit_vector \<Rightarrow> nat" where
  "popcount bv = length (filter id bv)"

definition rank_c :: "nat list \<Rightarrow> nat \<Rightarrow> nat \<Rightarrow> nat" where
  "rank_c L c i = length (filter (\<lambda>x. x = c) (take i L))"

definition inverse_select :: "nat list \<Rightarrow> nat \<Rightarrow> error + (nat \<times> nat)" where
  "inverse_select L i =
     (if i < length L then Inr (rank_c L (L ! i) i, L ! i) else Inl OutOfRange)"

text \<open>
  A rank or select support holds tables computed from a bitvector and a non-owning
  pointer to the bitvector it answers for. \<open>sup_tables\<close> is the vector the tables were
  built from (\<open>None\<close> for a default-constructed support), \<open>sup_v\<close> the vector the
  pointer refers to (\<open>None\<close> for the null pointer). A query is meaningful only when the
  tables belong to the vector pointed to.
\<close>

record support =
  sup_tables :: "bit_vector option"
  sup_v :: "bit_vector option"

definition no_support :: support where
  "no_support = \<lparr>sup_tables = None, sup_v = None\<rparr>"

definition init_support :: "bit_vector \<Rightarrow> support" where
  "init_support bv = \<lparr>sup_tables = Some bv, sup_v = Some bv\<rparr>"

definition sup_ready :: "support \<Rightarrow> bit_vector option" where
  "sup_ready s =
     (case (sup_tables s, sup_v s) of
        (Some t, Some v) \<Rightarrow> (if t = v then Some v else None)
      | _ \<Rightarrow> None)"

definition rank_query :: "support \<Rightarrow> nat \<Rightarrow> error + nat" where
  "rank_query s i =
     (case sup_ready s of
        None \<Rightarrow> Inl NoSupport
      | Some v \<Rightarrow> (if i \<le> length v then Inr (rank1 v i) else Inl OutOfRange))"

definition select_query :: "support \<Rightarrow> nat \<Rightarrow> error + nat" where
  "select_query s k =
     (case sup_ready s of
        None \<Rightarrow> Inl NoSupport
      | Some v \<Rightarrow> (case select1 v k of None \<Rightarrow> Inl OutOfRange | Some p \<Rightarrow> Inr p))"

subsection \<open>The index\<close>

record tfm_index =
  text_len :: size_type
  m_L :: "nat list"
  m_C :: "size_type list"
  m_dout :: bit_vector
  m_dout_rank :: support
  m_dout_select :: support
  m_din :: bit_vector
  m_din_rank :: support
  m_din_select :: support

type_synonym nav_type = "size_type \<times> size_type"

section \<open>Symbol frequencies of a byte vector\<close>

text \<open>
  \<^verbatim>\<open>symbol_frequencies(std::vector<uint64_t> &C, sdsl::int_vector<8> &L)\<close>: \<open>C\<close> is
  allocated with 255 zero entries, the first loop counts each byte \<open>b\<close> at index \<open>b + 1\<close>
  (the sum is computed in a 64-bit type, so \<open>255 + 1 = 256\<close>), the second loop turns the
  counts into running sums.
\<close>

fun count_symbols :: "u8 list \<Rightarrow> nat list \<Rightarrow> error + nat list" where
  "count_symbols [] C = Inr C"
| "count_symbols (b # bs) C =
     (if unat b + 1 < length C
      then count_symbols bs (C[unat b + 1 := C ! (unat b + 1) + 1])
      else Inl OutOfRange)"

function accumulate :: "nat \<Rightarrow> nat list \<Rightarrow> nat list" where
  "accumulate i C =
     (if i < length C - 1 then accumulate (i + 1) (C[i + 1 := C ! (i + 1) + C ! i]) else C)"
  by pat_completeness auto
termination
  by (relation "measure (\<lambda>(i, C). length C - 1 - i)") auto

declare accumulate.simps [simp del]

definition symbol_frequencies :: "u8 list \<Rightarrow> error + nat list" where
  "symbol_frequencies L =
     (case count_symbols L (replicate 255 0) of
        Inl e \<Rightarrow> Inl e
      | Inr C \<Rightarrow> Inr (accumulate 0 C))"

section \<open>Loading a packed bitvector\<close>

text \<open>
  \<open>load_bitvector\<close> opens the file with \<open>fopen\<close> and never tests the stream, reads
  \<open>(n + 7) / 8\<close> bytes one at a time with \<open>fread\<close>, prints an error line when the unsigned
  count \<open>fread\<close> returned is below zero, and unpacks each byte most significant bit
  first into the bitvector until \<open>n\<close> bits are written. The file system is a map from
  names to contents; a stream is the content that is left, or no stream at all when the
  file does not exist. A read at the end of a stream returns the count 0 and leaves the
  one-byte buffer as it was; a read on a null stream is an error of the model.
\<close>

definition msb_bit :: "u8 \<Rightarrow> nat \<Rightarrow> bool" where
  "msb_bit buffer j = (1 AND drop_bit (7 - j) buffer \<noteq> 0)"

type_synonym filesystem = "string \<rightharpoonup> u8 list"
type_synonym cfile = "u8 list option"

definition fopen_rb :: "filesystem \<Rightarrow> string \<Rightarrow> cfile" where
  "fopen_rb fs name = fs name"

definition fread1 :: "cfile \<Rightarrow> u8 \<Rightarrow> error + (int \<times> u8 \<times> cfile)" where
  "fread1 fin buffer =
     (case fin of
        None \<Rightarrow> Inl NullStream
      | Some [] \<Rightarrow> Inr (0, buffer, Some [])
      | Some (b # rest) \<Rightarrow> Inr (1, b, Some rest))"

function unpack_byte :: "nat \<Rightarrow> u8 \<Rightarrow> nat \<Rightarrow> nat \<Rightarrow> bit_vector \<Rightarrow> error + (bool \<times> nat \<times> bit_vector)" where
  "unpack_byte j buffer n cnt B =
     (if j < 8 then
        (case vec_set B cnt (msb_bit buffer j) of
           Inl e \<Rightarrow> Inl e
         | Inr B' \<Rightarrow>
             if cnt + 1 = n then Inr (True, cnt + 1, B')
             else unpack_byte (j + 1) buffer n (cnt + 1) B')
      else Inr (False, cnt, B))"
  by pat_completeness auto
termination
  by (relation "measure (\<lambda>(j, buffer, n, cnt, B). 8 - j)") auto

declare unpack_byte.simps [simp del]

function read_bytes :: "nat \<Rightarrow> nat \<Rightarrow> nat \<Rightarrow> u8 \<Rightarrow> cfile \<Rightarrow> bit_vector \<Rightarrow> string list
    \<Rightarrow> error + (bit_vector \<times> string list)" where
  "read_bytes i n cnt buffer fin B log =
     (if i < (n + 7) div 8 then
        (case fread1 fin buffer of
           Inl e \<Rightarrow> Inl e
         | Inr (e, buffer', fin') \<Rightarrow>
             let log' = (if e < 0 then log @ [''ERROR during bitvector loading!''] else log) in
             (case unpack_byte 0 buffer' n cnt B of
                Inl e \<Rightarrow> Inl e
              | Inr (returned, cnt', B') \<Rightarrow>
                  if returned then Inr (B', log')
                  else read_bytes (i + 1) n cnt' buffer' fin' B' log'))
      else Inr (B, log))"
  by pat_completeness auto
termination
  by (relation "measure (\<lambda>(i, n, cnt, buffer, fin, B, log). (n + 7) div 8 - i)") auto

declare read_bytes.simps [simp del]

definition load_bitvector :: "filesystem \<Rightarrow> bit_vector \<Rightarrow> string \<Rightarrow> nat \<Rightarrow> error + (bit_vector \<times> string list)" where
  "load_bitvector fs B filename n = read_bytes 0 n 0 0 (fopen_rb fs filename) B []"


definition byte_from :: "u8 list \<Rightarrow> u8 \<Rightarrow> nat \<Rightarrow> u8" where
  "byte_from s buffer d = (if d < length s then s ! d else last (buffer # s))"

section \<open>Navigation and inversion\<close>

text \<open>
  Output is recorded as a list of events: lines written to \<open>cout\<close>, numbers written to
  \<open>cout\<close>, and lines written to \<open>cerr\<close>. \<open>load_vector_from_file\<close> returns the bytes of a
  file, and no bytes when the file cannot be opened.
\<close>

datatype event = Cout_text string | Cout_num nat | Cerr_text string

definition load_vector_from_file :: "filesystem \<Rightarrow> string \<Rightarrow> u8 list" where
  "load_vector_from_file fs file = (case fs file of None \<Rightarrow> [] | Some bs \<Rightarrow> bs)"

text \<open>
  The member functions \<open>end\<close>, \<open>size\<close> and \<open>preceding_char\<close>. A position is a pair of a
  row of \<open>L\<close> and a pending tunnel offset.
\<close>

definition tfm_end :: "tfm_index \<Rightarrow> nav_type" where
  "tfm_end tfm = (0, 0)"

definition tfm_size :: "tfm_index \<Rightarrow> size_type" where
  "tfm_size tfm = text_len tfm"

definition preceding_char :: "tfm_index \<Rightarrow> nav_type \<Rightarrow> error + nat" where
  "preceding_char tfm pos = vec_at (m_L tfm) (fst pos)"

text \<open>
  \<open>backwardstep\<close>, statement by statement: the wavelet tree's \<open>inverse_select\<close> gives the
  symbol of the row and its rank, \<open>C\<close> turns them into the LF target, an entry whose
  \<open>din\<close> bit is cleared records its distance to the first entry of its tunnel, the row is
  mapped from \<open>din\<close> to \<open>dout\<close> by rank and select, and a row followed by a cleared
  \<open>dout\<close> bit consumes the offset. Every vector access and support query of the source is
  a fallible step of the model, and every addition and subtraction on \<open>i\<close> and \<open>o\<close> is the
  64-bit one. The position, which the source updates in place, is returned with the
  symbol.
\<close>

definition backwardstep :: "tfm_index \<Rightarrow> nav_type \<Rightarrow> error + (nat \<times> nav_type)" where
  "backwardstep tfm pos =
     (let i = fst pos; o1 = snd pos in
      ebind (inverse_select (m_L tfm) i) (\<lambda>is.
      let c = snd is in
      ebind (vec_at (m_C tfm) c) (\<lambda>Cc.
      let i = add64 Cc (fst is) in
      ebind (rank_query (m_din_rank tfm) (add64 i 1)) (\<lambda>din_rank_ip1.
      ebind (vec_at (m_din tfm) i) (\<lambda>din_i.
      ebind (if din_i = False
             then ebind (select_query (m_din_select tfm) din_rank_ip1) (\<lambda>s. Inr (sub64 i s))
             else Inr o1) (\<lambda>o1.
      ebind (select_query (m_dout_select tfm) din_rank_ip1) (\<lambda>i.
      ebind (vec_at (m_dout tfm) (add64 i 1)) (\<lambda>dout_ip1.
      if dout_ip1 = False then Inr (c, (add64 i o1, 0)) else Inr (c, (i, o1))))))))))"

text \<open>
  \<open>our_end\<close> makes \<open>text_len - 1\<close> backward steps from \<open>(0, 0)\<close> and returns the position
  reached. \<open>untunnel\<close> makes \<open>size()\<close> backward steps from \<open>end()\<close>, stores the symbol of
  step \<open>i\<close> at index \<open>size() - i - 1\<close> of a buffer of \<open>size()\<close> characters, and writes
  the buffer to the file.
\<close>

function our_end_loop :: "tfm_index \<Rightarrow> nat \<Rightarrow> nav_type \<Rightarrow> error + nav_type" where
  "our_end_loop tfm i e =
     (if i < text_len tfm
      then ebind (backwardstep tfm e) (\<lambda>r. our_end_loop tfm (i + 1) (snd r))
      else Inr e)"
  by pat_completeness auto
termination
  by (relation "measure (\<lambda>(tfm, i, e). text_len tfm - i)") auto

declare our_end_loop.simps [simp del]

definition our_end :: "tfm_index \<Rightarrow> error + nav_type" where
  "our_end tfm = our_end_loop tfm 1 (0, 0)"

function untunnel_loop :: "tfm_index \<Rightarrow> nat \<Rightarrow> nav_type \<Rightarrow> u8 list \<Rightarrow> error + u8 list" where
  "untunnel_loop tfm i p original =
     (if i < tfm_size tfm
      then ebind (backwardstep tfm p) (\<lambda>r.
           ebind (vec_set original (tfm_size tfm - i - 1) (word_of_nat (fst r))) (\<lambda>original'.
           untunnel_loop tfm (i + 1) (snd r) original'))
      else Inr original)"
  by pat_completeness auto
termination
  by (relation "measure (\<lambda>(tfm, i, p, original). tfm_size tfm - i)") auto

declare untunnel_loop.simps [simp del]

definition untunnel :: "tfm_index \<Rightarrow> string \<Rightarrow> filesystem \<Rightarrow> error + filesystem" where
  "untunnel tfm filename fs =
     ebind (untunnel_loop tfm 0 (tfm_end tfm) (replicate (tfm_size tfm) 0)) (\<lambda>original.
     Inr (fs(filename \<mapsto> original)))"

text \<open>
  The header's \<open>construct_from_pfwg\<close>: it loads the original file, \<open>L\<close> and the two packed
  bitvectors, recomputes \<open>C\<close> from \<open>L\<close>, and records the size of the original file as the
  text length.
\<close>

definition construct_from_pfwg :: "filesystem \<Rightarrow> string \<Rightarrow> error + (tfm_index \<times> event list)" where
  "construct_from_pfwg fs basename =
     (let original = load_vector_from_file fs basename;
          L = load_vector_from_file fs (basename @ ''.L'');
          size = length L;
          din = replicate (size + 1) False;
          dout = replicate (size + 1) False in
      ebind (load_bitvector fs din (basename @ ''.din'') (size + 1)) (\<lambda>(din, log1).
      ebind (load_bitvector fs dout (basename @ ''.dout'') (size + 1)) (\<lambda>(dout, log2).
      ebind (symbol_frequencies L) (\<lambda>C.
      Inr (\<lparr>text_len = length original,
            m_L = map unat (take size (load_vector_from_file fs (basename @ ''.L''))),
            m_C = C,
            m_dout = dout,
            m_dout_rank = init_support dout,
            m_dout_select = init_support dout,
            m_din = din,
            m_din_rank = init_support din,
            m_din_select = init_support din\<rparr>,
           map Cout_text (log1 @ log2))))))"

section \<open>The inverter tool\<close>

text \<open>
  \<open>tfm_index_invert\<close> has a \<open>construct_from_pfwg\<close> of its own. It does not read the
  original file; the text length it passes on is the constant \<open>orig_size\<close>.
\<close>

definition orig_size :: nat where
  "orig_size = 12156306"

text \<open>
  Modelled from the spec: \<open>create_tfm\<close> is called by the inverter's
  \<open>construct_from_pfwg\<close> and is not defined in the sources at hand. It is taken to be the
  final assembly step of the specification for pre-built \<open>.L/.din/.dout\<close> data: it
  installs the text length given to it, the wavelet tree over \<open>L\<close>, \<open>C\<close> recomputed from
  \<open>L\<close>, the two bitvectors and their rank/select supports.
\<close>

definition create_tfm :: "nat \<Rightarrow> u8 list \<Rightarrow> bit_vector \<Rightarrow> bit_vector \<Rightarrow> error + tfm_index" where
  "create_tfm n L din dout =
     ebind (symbol_frequencies L) (\<lambda>C.
     Inr \<lparr>text_len = n,
          m_L = map unat L,
          m_C = C,
          m_dout = dout,
          m_dout_rank = init_support dout,
          m_dout_select = init_support dout,
          m_din = din,
          m_din_rank = init_support din,
          m_din_select = init_support din\<rparr>)"

definition invert_construct_from_pfwg :: "filesystem \<Rightarrow> string \<Rightarrow> error + (tfm_index \<times> event list)" where
  "invert_construct_from_pfwg fs basename =
     (let L = load_vector_from_file fs (basename @ ''.L'');
          din = replicate (length L + 1) False in
      ebind (load_bitvector fs din (basename @ ''.din'') (length L + 1)) (\<lambda>(din, log1).
      let dout = replicate (length L + 1) False in
      ebind (load_bitvector fs dout (basename @ ''.dout'') (length L + 1)) (\<lambda>(dout, log2).
      ebind (create_tfm orig_size L din dout) (\<lambda>tfm.
      Inr (tfm, map Cout_text (log1 @ log2))))))"

text \<open>
  \<open>main\<close> prints the usage and returns 1 when no file is named. Otherwise it loads the
  named file and prints its size, builds the index, and writes the inverted text to the
  named file with the suffix \<open>.untunneled\<close>; it returns 0.
\<close>

definition printUsage :: "string \<Rightarrow> event list" where
  "printUsage argv0 =
     [Cerr_text (''USAGE: '' @ argv0 @ '' TFMFILE''),
      Cerr_text ''TFMFILE:'',
      Cerr_text ''  File where to store the serialized trie'']"

definition main :: "filesystem \<Rightarrow> string \<Rightarrow> string list \<Rightarrow> error + (int \<times> filesystem \<times> event list)" where
  "main fs argv0 args =
     (if 1 + length args < 2
      then Inr (1, fs, printUsage argv0 @ [Cerr_text ''At least 1 parameter expected''])
      else
        let original = load_vector_from_file fs (args ! 0);
            out1 = [Cout_num (length original)] in
        ebind (invert_construct_from_pfwg fs (args ! 0)) (\<lambda>(tfm, log).
        let filename = (args ! 0) @ ''.untunneled'' in
        ebind (untunnel tfm filename fs) (\<lambda>fs'.
        Inr (0, fs', out1 @ log))))"

section \<open>The compactor\<close>

text \<open>
  The last step of \<open>construct_tfm_index\<close>: one pass over the rows of the full column
  with the write cursors \<open>p\<close> and \<open>q\<close>. A row whose \<open>din\<close> bit is set contributes its
  symbol to the new \<open>L\<close> and its \<open>dout\<close> bit at \<open>p\<close>; a row whose \<open>dout\<close> bit is set
  contributes its \<open>din\<close> bit at \<open>q\<close>. After the pass each bitvector gets its sentinel bit
  and is cut to the cursor. The bitvectors are overwritten in place, as in the source.
\<close>

definition bv_resize :: "nat \<Rightarrow> bit_vector \<Rightarrow> bit_vector" where
  "bv_resize n bv = take n bv @ replicate (n - length bv) False"

record compaction =
  c_L_buf :: "nat list"
  c_p :: nat
  c_q :: nat
  c_dout :: bit_vector
  c_din :: bit_vector

function compact_loop :: "nat list \<Rightarrow> nat \<Rightarrow> compaction \<Rightarrow> error + compaction" where
  "compact_loop wt_L i s =
     (if i < length wt_L then
        ebind (vec_at (c_din s) i) (\<lambda>din_i.
        ebind (if din_i = True
               then ebind (vec_at wt_L i) (\<lambda>c.
                    ebind (vec_at (c_dout s) i) (\<lambda>d.
                    ebind (vec_set (c_dout s) (c_p s) d) (\<lambda>dout'.
                    Inr (s\<lparr>c_L_buf := c_L_buf s @ [c], c_dout := dout', c_p := c_p s + 1\<rparr>))))
               else Inr s) (\<lambda>s.
        ebind (vec_at (c_dout s) i) (\<lambda>dout_i.
        ebind (if dout_i = True
               then ebind (vec_at (c_din s) i) (\<lambda>d.
                    ebind (vec_set (c_din s) (c_q s) d) (\<lambda>din'.
                    Inr (s\<lparr>c_din := din', c_q := c_q s + 1\<rparr>)))
               else Inr s) (\<lambda>s.
        compact_loop wt_L (i + 1) s))))
      else Inr s)"
  by pat_completeness auto
termination
  by (relation "measure (\<lambda>(wt_L, i, s). length wt_L - i)") auto

declare compact_loop.simps [simp del]

definition remove_redundant_entries :: "nat list \<Rightarrow> bit_vector \<Rightarrow> bit_vector \<Rightarrow> error + compaction" where
  "remove_redundant_entries wt_L dout din =
     ebind (compact_loop wt_L 0 \<lparr>c_L_buf = [], c_p = 0, c_q = 0, c_dout = dout, c_din = din\<rparr>) (\<lambda>s.
     ebind (vec_set (c_dout s) (c_p s) True) (\<lambda>dout'.
     let s = s\<lparr>c_dout := dout', c_p := c_p s + 1\<rparr> in
     ebind (vec_set (c_din s) (c_q s) True) (\<lambda>din'.
     let s = s\<lparr>c_din := din', c_q := c_q s + 1\<rparr> in
     Inr (s\<lparr>c_dout := bv_resize (c_p s) (c_dout s), c_din := bv_resize (c_q s) (c_din s)\<rparr>))))"

subsection \<open>Reference readings used in the statements\<close>

text \<open>
  \<open>unpacked_bits bs n\<close> is the vector of \<open>n\<close> bits that the loader produces from the
  bytes \<open>bs\<close> of an existing file: most significant bit first, and past the end of the
  file the last byte read (or the initial zero buffer). \<open>wt_sigma\<close> is the alphabet size
  the wavelet tree reports: the number of distinct symbols of the sequence.
\<close>

definition unpacked_bits :: "u8 list \<Rightarrow> nat \<Rightarrow> bit_vector" where
  "unpacked_bits bs n = map (\<lambda>k. msb_bit (byte_from bs 0 (k div 8)) (k mod 8)) [0..<n]"

definition wt_sigma :: "nat list \<Rightarrow> nat" where
  "wt_sigma L = length (remdups L)"

text \<open>
  Two small file systems used as concrete inputs. \<open>fs_small\<close> holds the text \<open>ab\<close> with
  the last column \<open>b 0 a\<close> of its terminated form and all-ones bitvectors of four bits.
  \<open>fs_mismatch\<close> has the same \<open>.L\<close> file, an empty \<open>.din\<close> file and a \<open>.dout\<close> file
  of three bytes, where one byte is expected.
\<close>

definition fs_small :: filesystem where
  "fs_small = [''t'' \<mapsto> [97, 98], ''t.L'' \<mapsto> [98, 0, 97], ''t.din'' \<mapsto> [0xF0], ''t.dout'' \<mapsto> [0xF0]]"

definition fs_mismatch :: filesystem where
  "fs_mismatch = [''m'' \<mapsto> [97, 98], ''m.L'' \<mapsto> [98, 0, 97],
                  ''m.din'' \<mapsto> [], ''m.dout'' \<mapsto> [0xFF, 0xFF, 0xFF]]"

text \<open>
  The rows of the full \<open>L\<close> that the compactor keeps, and the invariant of its loop before
  iteration \<open>i\<close>: the cursors count the kept rows, the prefix of each vector up to its
  cursor holds the kept bits, and from \<open>i\<close> on each vector still holds the original bits.
\<close>

definition kept :: "bit_vector \<Rightarrow> nat \<Rightarrow> nat list" where
  "kept bv i = filter (\<lambda>t. bv ! t) [0..<i]"

definition compact_inv :: "nat list \<Rightarrow> bit_vector \<Rightarrow> bit_vector \<Rightarrow> nat \<Rightarrow> compaction \<Rightarrow> bool" where
  "compact_inv wt_L dout din i s \<longleftrightarrow>
     length (c_dout s) = length dout \<and> length (c_din s) = length din \<and>
     c_p s = length (kept din i) \<and> c_q s = length (kept dout i) \<and>
     take (c_p s) (c_dout s) = map (\<lambda>t. dout ! t) (kept din i) \<and>
     take (c_q s) (c_din s) = map (\<lambda>t. din ! t) (kept dout i) \<and>
     drop i (c_dout s) = drop i dout \<and> drop i (c_din s) = drop i din \<and>
     c_L_buf s = map (\<lambda>t. wt_L ! t) (kept din i)"

text \<open>
  The index the header's loader builds from \<open>fs_small\<close>; the inverter builds the same
  index with \<open>orig_size\<close> for the length of the text.
\<close>

definition tfm_small :: tfm_index where
  "tfm_small =
     \<lparr>text_len = 2, m_L = [98, 0, 97],
      m_C = 0 # replicate 97 1 @ 2 # replicate 156 3,
      m_dout = [True, True, True, True],
      m_dout_rank = init_support [True, True, True, True],
      m_dout_select = init_support [True, True, True, True],
      m_din = [True, True, True, True],
      m_din_rank = init_support [True, True, True, True],
      m_din_select = init_support [True, True, True, True]\<rparr>"

section \<open>Serialization\<close>

text \<open>
  The byte layout of each member is the library's. The stream is modelled as the sequence
  of serialized members, in the order they are written. A rank or select support writes
  its tables only, never the pointer to its vector; \<open>load\<close> reads the tables and sets the
  pointer to the vector given to it. The number of bytes a member takes is the library's:
  \<open>bytes\<close> stands for it. The structure-tree node is diagnostic output and is left out.
\<close>

datatype item =
    Item_size nat
  | Item_wt "nat list"
  | Item_vec "nat list"
  | Item_bv bit_vector
  | Item_rank "bit_vector option"
  | Item_select "bit_vector option"

definition serialize_items :: "tfm_index \<Rightarrow> item list" where
  "serialize_items tfm =
     [Item_size (text_len tfm),
      Item_wt (m_L tfm),
      Item_vec (m_C tfm),
      Item_bv (m_dout tfm),
      Item_rank (sup_tables (m_dout_rank tfm)),
      Item_select (sup_tables (m_dout_select tfm)),
      Item_bv (m_din tfm),
      Item_rank (sup_tables (m_din_rank tfm)),
      Item_select (sup_tables (m_din_select tfm))]"

fun write_members :: "(item \<Rightarrow> nat) \<Rightarrow> item list \<Rightarrow> item list \<times> nat \<Rightarrow> item list \<times> nat" where
  "write_members bytes [] s = s"
| "write_members bytes (x # xs) (out, written_bytes) =
     write_members bytes xs (out @ [x], written_bytes + bytes x)"

definition serialize :: "(item \<Rightarrow> nat) \<Rightarrow> tfm_index \<Rightarrow> item list \<Rightarrow> item list \<times> nat" where
  "serialize bytes tfm out = write_members bytes (serialize_items tfm) (out, 0)"

definition read_member :: "item list \<Rightarrow> error + (nat \<times> item list)" where
  "read_member inp = (case inp of Item_size n # rest \<Rightarrow> Inr (n, rest) | _ \<Rightarrow> Inl BadStream)"

definition load_wt :: "item list \<Rightarrow> error + (nat list \<times> item list)" where
  "load_wt inp = (case inp of Item_wt L # rest \<Rightarrow> Inr (L, rest) | _ \<Rightarrow> Inl BadStream)"

definition load_vec :: "item list \<Rightarrow> error + (nat list \<times> item list)" where
  "load_vec inp = (case inp of Item_vec C # rest \<Rightarrow> Inr (C, rest) | _ \<Rightarrow> Inl BadStream)"

definition load_bv :: "item list \<Rightarrow> error + (bit_vector \<times> item list)" where
  "load_bv inp = (case inp of Item_bv b # rest \<Rightarrow> Inr (b, rest) | _ \<Rightarrow> Inl BadStream)"

definition load_rank :: "item list \<Rightarrow> bit_vector \<Rightarrow> error + (support \<times> item list)" where
  "load_rank inp v =
     (case inp of
        Item_rank t # rest \<Rightarrow> Inr (\<lparr>sup_tables = t, sup_v = Some v\<rparr>, rest)
      | _ \<Rightarrow> Inl BadStream)"

definition load_select :: "item list \<Rightarrow> bit_vector \<Rightarrow> error + (support \<times> item list)" where
  "load_select inp v =
     (case inp of
        Item_select t # rest \<Rightarrow> Inr (\<lparr>sup_tables = t, sup_v = Some v\<rparr>, rest)
      | _ \<Rightarrow> Inl BadStream)"

definition load :: "tfm_index \<Rightarrow> item list \<Rightarrow> error + (tfm_index \<times> item list)" where
  "load tfm inp =
     ebind (read_member inp) (\<lambda>(n, inp).
     let tfm = tfm\<lparr>text_len := n\<rparr> in
     ebind (load_wt inp) (\<lambda>(L, inp).
     let tfm = tfm\<lparr>m_L := L\<rparr> in
     ebind (load_vec inp) (\<lambda>(C, inp).
     let tfm = tfm\<lparr>m_C := C\<rparr> in
     ebind (load_bv inp) (\<lambda>(b, inp).
     let tfm = tfm\<lparr>m_dout := b\<rparr> in
     ebind (load_rank inp (m_dout tfm)) (\<lambda>(s, inp).
     let tfm = tfm\<lparr>m_dout_rank := s\<rparr> in
     ebind (load_select inp (m_dout tfm)) (\<lambda>(s, inp).
     let tfm = tfm\<lparr>m_dout_select := s\<rparr> in
     ebind (load_bv inp) (\<lambda>(b, inp).
     let tfm = tfm\<lparr>m_din := b\<rparr> in
     ebind (load_rank inp (m_din tfm)) (\<lambda>(s, inp).
     let tfm = tfm\<lparr>m_din_rank := s\<rparr> in
     ebind (load_select inp (m_din tfm)) (\<lambda>(s, inp).
     let tfm = tfm\<lparr>m_din_select := s\<rparr> in
     Inr (tfm, inp))))))))))"

text \<open>The state of a default-constructed index, into which \<open>load\<close> reads.\<close>

definition empty_index :: tfm_index where
  "empty_index =
     \<lparr>text_len = 0, m_L = [], m_C = [],
      m_dout = [], m_dout_rank = no_support, m_dout_select = no_support,
      m_din = [], m_din_rank = no_support, m_din_select = no_support\<rparr>"

text \<open>
  In the source a support is either default-constructed or its pointer refers to the
  bitvector member of the same index (set by \<open>init_support\<close> or by \<open>load\<close>):
  \<open>supports_attached\<close> says so.
\<close>

definition attached :: "support \<Rightarrow> bit_vector \<Rightarrow> bool" where
  "attached s bv \<longleftrightarrow> s = no_support \<or> sup_v s = Some bv"

definition supports_attached :: "tfm_index \<Rightarrow> bool" where
  "supports_attached tfm \<longleftrightarrow>
     attached (m_dout_rank tfm) (m_dout tfm) \<and> attached (m_dout_select tfm) (m_dout tfm) \<and>
     attached (m_din_rank tfm) (m_din tfm) \<and> attached (m_din_select tfm) (m_din tfm)"

section \<open>The backward step as the specification words it\<close>

text \<open>
  The seven steps of the specification, on an index all of whose accesses are in range,
  with the sums and the difference taken over the natural numbers.
  \<open>backwardsteps tfm n pos\<close> iterates the backward step of the source \<open>n\<close> times and
  collects the characters returned.
\<close>

definition backwardstep_spec :: "tfm_index \<Rightarrow> nav_type \<Rightarrow> nat \<times> nav_type" where
  "backwardstep_spec tfm pos =
     (let i = fst pos; o1 = snd pos;
          r = rank_c (m_L tfm) (m_L tfm ! i) i;
          c = m_L tfm ! i;
          i = m_C tfm ! c + r;
          k = rank1 (m_din tfm) (i + 1);
          o1 = (if \<not> m_din tfm ! i then i - the (select1 (m_din tfm) k) else o1);
          i = the (select1 (m_dout tfm) k)
      in if \<not> m_dout tfm ! (i + 1) then (c, (i + o1, 0)) else (c, (i, o1)))"

fun backwardsteps :: "tfm_index \<Rightarrow> nat \<Rightarrow> nav_type \<Rightarrow> error + (nat list \<times> nav_type)" where
  "backwardsteps tfm 0 pos = Inr ([], pos)"
| "backwardsteps tfm (Suc n) pos =
     ebind (backwardstep tfm pos) (\<lambda>(c, pos').
     ebind (backwardsteps tfm n pos') (\<lambda>(cs, pos'').
     Inr (c # cs, pos'')))"

text \<open>
  An index is well formed when the two bitvectors have one bit more than \<open>L\<close>, both end
  with the sentinel bit, both start with a set bit, they have the same number of set
  bits, every symbol of \<open>L\<close> has an entry in \<open>C\<close>, the LF-mapping \<open>C[c] + rank_c(i)\<close> stays
  inside \<open>L\<close>, and the three supports the backward step queries are built over the
  index's own vectors.
\<close>

definition well_formed :: "tfm_index \<Rightarrow> bool" where
  "well_formed tfm \<longleftrightarrow>
     length (m_dout tfm) = length (m_L tfm) + 1 \<and>
     length (m_din tfm) = length (m_L tfm) + 1 \<and>
     m_dout tfm ! length (m_L tfm) \<and> m_din tfm ! length (m_L tfm) \<and>
     m_dout tfm ! 0 \<and> m_din tfm ! 0 \<and>
     popcount (m_dout tfm) = popcount (m_din tfm) \<and>
     (\<forall>i < length (m_L tfm).
        m_L tfm ! i < length (m_C tfm) \<and>
        m_C tfm ! (m_L tfm ! i) + rank_c (m_L tfm) (m_L tfm ! i) i < length (m_L tfm)) \<and>
     sup_ready (m_din_rank tfm) = Some (m_din tfm) \<and>
     sup_ready (m_din_select tfm) = Some (m_din tfm) \<and>
     sup_ready (m_dout_select tfm) = Some (m_dout tfm)"

text \<open>
  A tunneled index of the text \<open>a b a b $\<close> (symbols \<open>$ = 0\<close>, \<open>a = 1\<close>, \<open>b = 2\<close>). Its
  last column \<open>b b $ a a\<close> has one prefix interval, rows 3 and 4; the compacted \<open>L\<close> has
  four rows, \<open>dout\<close> has a node with two outgoing edges and \<open>din\<close> a node with two
  incoming edges.
\<close>

definition tfm_abab :: tfm_index where
  "tfm_abab =
     \<lparr>text_len = 5, m_L = [2, 2, 0, 1], m_C = [0, 1, 2] @ replicate 252 4,
      m_dout = [True, True, False, True, True],
      m_dout_rank = init_support [True, True, False, True, True],
      m_dout_select = init_support [True, True, False, True, True],
      m_din = [True, True, True, False, True],
      m_din_rank = init_support [True, True, True, False, True],
      m_din_select = init_support [True, True, True, False, True]\<rparr>"

section \<open>Readers sharing an index\<close>

text \<open>
  The member functions \<open>end\<close>, \<open>preceding_char\<close> and \<open>backwardstep\<close> as operations on
  the index object together with the caller's position pair: each returns its result
  and the state of both afterwards. A system of readers is an index and one position
  pair per reader; \<open>reader_step k\<close> lets reader \<open>k\<close> do one backward step, and a schedule
  is the order in which the readers take their steps.
\<close>

definition call_end :: "tfm_index \<Rightarrow> nav_type \<times> tfm_index" where
  "call_end tfm = (tfm_end tfm, tfm)"

definition call_preceding_char :: "tfm_index \<times> nav_type \<Rightarrow> error + (nat \<times> tfm_index \<times> nav_type)" where
  "call_preceding_char s = ebind (preceding_char (fst s) (snd s)) (\<lambda>c. Inr (c, s))"

definition call_backwardstep :: "tfm_index \<times> nav_type \<Rightarrow> error + (nat \<times> tfm_index \<times> nav_type)" where
  "call_backwardstep s =
     ebind (backwardstep (fst s) (snd s)) (\<lambda>(c, pos'). Inr (c, (fst s, pos')))"

definition reader_step :: "nat \<Rightarrow> tfm_index \<times> nav_type list \<Rightarrow> error + (nat \<times> tfm_index \<times> nav_type list)" where
  "reader_step k s =
     ebind (vec_at (snd s) k) (\<lambda>pos.
     ebind (call_backwardstep (fst s, pos)) (\<lambda>(c, tfm', pos').
     Inr (c, (tfm', (snd s)[k := pos']))))"

fun run_schedule :: "nat list \<Rightarrow> tfm_index \<times> nav_type list
    \<Rightarrow> error + ((nat \<times> nat) list \<times> tfm_index \<times> nav_type list)" where
  "run_schedule [] s = Inr ([], s)"
| "run_schedule (k # ks) s =
     ebind (reader_step k s) (\<lambda>(c, s').
     ebind (run_schedule ks s') (\<lambda>(out, s'').
     Inr ((k, c) # out, s'')))"

definition seen_by :: "nat \<Rightarrow> (nat \<times> nat) list \<Rightarrow> nat list" where
  "seen_by k out = map snd (filter (\<lambda>e. fst e = k) out)"

section \<open>The Burrows-Wheeler transform and its tunneled form\<close>

text \<open>
  The inversion claim relates the index to the text it was built from, so the text side is
  written down here: the last column of the sorted rotations, the LF-mapping on that
  column, the marking of prefix intervals by two bitvectors, and what it means for an index
  to be the output of the compactor on such a marked column.
\<close>

subsection \<open>The LF-mapping of a last column\<close>

text \<open>
  \<open>lf L i\<close> is the classical LF-mapping \<open>C[L[i]] + rank(L, L[i], i)\<close>, with \<open>C[c]\<close> the number
  of symbols of \<open>L\<close> below \<open>c\<close>. \<open>lf_before L t i\<close> is the order it realises: row \<open>t\<close>
  comes before row \<open>i\<close> when its symbol is smaller, or equal and earlier.
\<close>

definition lf :: "nat list \<Rightarrow> nat \<Rightarrow> nat" where
  "lf L i = length (filter (\<lambda>x. x < L ! i) L) + rank_c L (L ! i) i"

definition lf_before :: "nat list \<Rightarrow> nat \<Rightarrow> nat \<Rightarrow> bool" where
  "lf_before L t i \<longleftrightarrow> L ! t < L ! i \<or> (L ! t = L ! i \<and> t < i)"

subsection \<open>The transform\<close>

text \<open>
  The rows of the transform are the rotations of the text in lexicographic order, and the
  transform is their last column. \<open>rotr\<close> rotates a row by one symbol to the right. A text
  is \<open>terminated\<close> when its last symbol is strictly below every other symbol (the unique
  minimal terminator).
\<close>

definition rotations :: "'a list \<Rightarrow> 'a list list" where
  "rotations T = map (\<lambda>k. rotate k T) [0..<length T]"

definition rotr :: "'a list \<Rightarrow> 'a list" where
  "rotr s = last s # butlast s"

definition bwt_rows :: "u8 list \<Rightarrow> u8 list list" where
  "bwt_rows T = sort (rotations T)"

definition bwt :: "u8 list \<Rightarrow> u8 list" where
  "bwt T = map last (bwt_rows T)"

definition terminated :: "u8 list \<Rightarrow> bool" where
  "terminated T \<longleftrightarrow> T \<noteq> [] \<and> (\<forall>x \<in> set (butlast T). last T < x)"

subsection \<open>Marked columns\<close>

text \<open>
  \<open>both f g i\<close> lists the rows below \<open>i\<close> set in both bitvectors, and \<open>block_top bv r\<close> is
  the closest row at or above \<open>r\<close> whose bit is set (row 0 when there is none): the first
  row of the block \<open>r\<close> lies in.
\<close>

definition both :: "bit_vector \<Rightarrow> bit_vector \<Rightarrow> nat \<Rightarrow> nat list" where
  "both f g i = filter (\<lambda>t. f ! t \<and> g ! t) [0..<i]"

fun block_top :: "bit_vector \<Rightarrow> nat \<Rightarrow> nat" where
  "block_top bv 0 = 0"
| "block_top bv (Suc r) = (if bv ! Suc r then Suc r else block_top bv r)"

definition both_bits :: "bit_vector \<Rightarrow> bit_vector \<Rightarrow> bit_vector" where
  "both_bits f g = map (\<lambda>(a, b). a \<and> b) (zip f g)"

text \<open>
  Modelled from the spec: \<open>dbg_algorithms::mark_prefix_intervals\<close>, which produces the
  pair \<open>(dout, din)\<close> over the full last column, is not among the sources at hand, so the
  marking is a parameter and \<open>valid_marking\<close> is the contract it is taken to meet. Both
  bitvectors have one bit more than the column, end with the sentinel bit and start with a
  set bit. A cleared \<open>din\<close> bit is a non-first incoming edge of a collapsed tunnel: the
  rows of an entry column are the LF-images of the rows of an exit column
  (\<open>din[j] = dout[LF(j)]\<close>), and the rows of a block carry one symbol, so a row with a
  cleared \<open>din\<close> bit has the symbol of the row above it. Blocks do not straddle: a row
  with a cleared bit continues the block of the row above it, or sits directly under a
  row set in both vectors.
\<close>

definition valid_marking :: "nat list \<Rightarrow> bit_vector \<Rightarrow> bit_vector \<Rightarrow> bool" where
  "valid_marking L0 dout0 din0 \<longleftrightarrow>
     length dout0 = length L0 + 1 \<and> length din0 = length L0 + 1 \<and>
     dout0 ! length L0 \<and> din0 ! length L0 \<and> dout0 ! 0 \<and> din0 ! 0 \<and>
     (\<forall>j \<in> set [0..<length L0]. din0 ! j = dout0 ! lf L0 j) \<and>
     (\<forall>j \<in> set [0..<length L0]. \<not> din0 ! j \<longrightarrow> L0 ! j = L0 ! (j - 1)) \<and>
     (\<forall>j \<in> set [0..<length L0]. (\<not> din0 ! j \<or> \<not> dout0 ! j) \<longrightarrow>
          (din0 ! (j - 1) \<and> dout0 ! (j - 1))
          \<or> (din0 ! (j - 1) = din0 ! j \<and> dout0 ! (j - 1) = dout0 ! j))"

subsection \<open>Indexes built from a marked column\<close>

text \<open>
  \<open>compacted L0 dout0 din0 tfm\<close> describes the fields of an index by the rows the
  compactor keeps: \<open>L\<close> and \<open>dout\<close> keep the rows whose \<open>din\<close> bit is set, \<open>din\<close> keeps
  the rows whose \<open>dout\<close> bit is set, each bitvector followed by its sentinel; \<open>C\<close> counts
  the smaller symbols of the kept \<open>L\<close>; the supports are built over the index's vectors.
\<close>

definition compacted :: "nat list \<Rightarrow> bit_vector \<Rightarrow> bit_vector \<Rightarrow> tfm_index \<Rightarrow> bool" where
  "compacted L0 dout0 din0 tfm \<longleftrightarrow>
     m_L tfm = map (\<lambda>t. L0 ! t) (kept din0 (length L0)) \<and>
     m_dout tfm = map (\<lambda>t. dout0 ! t) (kept din0 (length L0)) @ [True] \<and>
     m_din tfm = map (\<lambda>t. din0 ! t) (kept dout0 (length L0)) @ [True] \<and>
     (\<forall>c \<in> set (m_L tfm).
        c < length (m_C tfm) \<and> m_C tfm ! c = length (filter (\<lambda>x. x < c) (m_L tfm))) \<and>
     sup_ready (m_din_rank tfm) = Some (m_din tfm) \<and>
     sup_ready (m_din_select tfm) = Some (m_din tfm) \<and>
     sup_ready (m_dout_select tfm) = Some (m_dout tfm)"

text \<open>
  Modelled from the spec: the generator \<open>pfwg\<close>, which writes the files \<open>FILE.L\<close>,
  \<open>FILE.din\<close> and \<open>FILE.dout\<close> that \<open>construct_from_pfwg\<close> loads, is not among the
  sources at hand. By the file formats of the specification \<open>.L\<close> holds the tunneled last
  column as raw bytes, and \<open>.din\<close> and \<open>.dout\<close> hold \<open>m + 1\<close> bits each, most significant
  bit first, with the trailing bits of the last byte undefined. \<open>pfwg_files\<close> takes the
  tunneled column and bitvectors to be what \<open>remove_redundant_entries\<close> produces from the
  transform of the text and a valid marking of it.
\<close>

definition pfwg_files :: "filesystem \<Rightarrow> string \<Rightarrow> u8 list \<Rightarrow> bit_vector \<Rightarrow> bit_vector \<Rightarrow> bool" where
  "pfwg_files fs basename T dout0 din0 \<longleftrightarrow>
     valid_marking (map unat (bwt T)) dout0 din0 \<and>
     (case remove_redundant_entries (map unat (bwt T)) dout0 din0 of
        Inl e \<Rightarrow> False
      | Inr s \<Rightarrow>
          fs (basename @ ''.L'') = Some (map word_of_nat (c_L_buf s)) \<and>
          (case fs (basename @ ''.din'') of
             None \<Rightarrow> False
           | Some bs \<Rightarrow> unpacked_bits bs (length (c_L_buf s) + 1) = c_din s) \<and>
          (case fs (basename @ ''.dout'') of
             None \<Rightarrow> False
           | Some bs \<Rightarrow> unpacked_bits bs (length (c_L_buf s) + 1) = c_dout s))"

text \<open>
  The text \<open>a b a b $\<close> of the example index \<open>tfm_abab\<close> and the marking of its transform
  \<open>b b $ a a\<close>: rows 3 and 4 form the exit column of the one tunnel, rows 1 and 2 its
  entry column. \<open>fs_abab\<close> holds the files of this text: the original file \<open>a b a b\<close>, the
  tunneled column \<open>b b $ a\<close>, \<open>din = 11101\<close> and \<open>dout = 11011\<close> packed into one byte
  each. In \<open>fs_abab_n\<close> the original file holds all five symbols of the text, terminator
  included, so that the index loaded from it records the text length \<open>n = 5\<close>;
  \<open>tfm_abab\<close> is that index.
\<close>

definition T_abab :: "u8 list" where
  "T_abab = [1, 2, 1, 2, 0]"

definition dout_abab :: bit_vector where
  "dout_abab = [True, True, False, True, True, True]"

definition din_abab :: bit_vector where
  "din_abab = [True, True, True, True, False, True]"

definition fs_abab :: filesystem where
  "fs_abab = [''abab'' \<mapsto> [1, 2, 1, 2], ''abab.L'' \<mapsto> [2, 2, 0, 1],
              ''abab.din'' \<mapsto> [0xE8], ''abab.dout'' \<mapsto> [0xD8]]"

definition fs_abab_n :: filesystem where
  "fs_abab_n = [''abab'' \<mapsto> [1, 2, 1, 2, 0], ''abab.L'' \<mapsto> [2, 2, 0, 1],
                ''abab.din'' \<mapsto> [0xE8], ''abab.dout'' \<mapsto> [0xD8]]"

subsection \<open>The assembly step of the pipeline\<close>

text \<open>
  The second overload of \<open>construct_tfm_index\<close> installs the compacted \<open>L\<close>, \<open>dout\<close>
  and \<open>din\<close> into the index. It computes \<open>C\<close> with the overload of \<open>symbol_frequencies\<close>
  that takes the alphabet size \<open>sigma\<close> of the wavelet tree and allocates \<open>sigma + 1\<close>
  entries. It initialises \<open>dout_select\<close> and \<open>din_rank\<close>; the two lines that initialise
  \<open>dout_rank\<close> and \<open>din_select\<close> are commented out, so these supports stay
  default-constructed.
\<close>

fun count_symbols_buf :: "nat list \<Rightarrow> nat list \<Rightarrow> error + nat list" where
  "count_symbols_buf [] C = Inr C"
| "count_symbols_buf (c # cs) C =
     (if c + 1 < length C
      then count_symbols_buf cs (C[c + 1 := C ! (c + 1) + 1])
      else Inl OutOfRange)"

definition symbol_frequencies_sigma :: "nat list \<Rightarrow> nat \<Rightarrow> error + nat list" where
  "symbol_frequencies_sigma L sigma =
     (case count_symbols_buf L (replicate (sigma + 1) 0) of
        Inl e \<Rightarrow> Inl e
      | Inr C \<Rightarrow> Inr (accumulate 0 C))"

definition construct_tfm_index :: "nat \<Rightarrow> nat list \<Rightarrow> bit_vector \<Rightarrow> bit_vector \<Rightarrow> error + tfm_index" where
  "construct_tfm_index n L_buf dout din =
     ebind (symbol_frequencies_sigma L_buf (wt_sigma L_buf)) (\<lambda>C.
     Inr \<lparr>text_len = n,
          m_L = L_buf,
          m_C = C,
          m_dout = dout,
          m_dout_rank = no_support,
          m_dout_select = init_support dout,
          m_din = din,
          m_din_rank = init_support din,
          m_din_select = no_support\<rparr>)"

section \<open>Properties of the symbol frequencies\<close>

lemma count_symbols_length:
  "count_symbols bs C = Inr C' \<Longrightarrow> length C' = length C"
  by (induction bs arbitrary: C) (auto split: if_splits)

lemma count_symbols_fails_iff:
  "(\<exists>e. count_symbols bs C = Inl e) \<longleftrightarrow> (\<exists>b \<in> set bs. length C \<le> unat b + 1)"
proof (induction bs arbitrary: C)
  case Nil
  show ?case by simp
next
  case (Cons b bs)
  show ?case
  proof (cases "unat b + 1 < length C")
    case True
    then show ?thesis using Cons.IH [of "C[unat b + 1 := C ! (unat b + 1) + 1]"] by auto
  next
    case False
    then show ?thesis by auto
  qed
qed

lemma count_symbols_error:
  "count_symbols bs C = Inl e \<Longrightarrow> e = OutOfRange"
  by (induction bs arbitrary: C) (auto split: if_splits)

lemma accumulate_length: "length (accumulate i C) = length C"
proof (induction i C rule: accumulate.induct)
  case (1 i C)
  show ?case
  proof (cases "i < length C - 1")
    case True
    then show ?thesis using 1 by (subst accumulate.simps) simp
  next
    case False
    then show ?thesis by (subst accumulate.simps) simp
  qed
qed

text \<open>
  Claim C9. The byte-vector overload of \<open>symbol_frequencies\<close> allocates 255 entries and
  writes index \<open>L[i] + 1\<close>; the write stays inside the vector exactly when every byte of
  \<open>L\<close> is at most 253, and a byte 254 or 255 indexes past the end (the model's
  \<open>OutOfRange\<close>). When no such byte occurs the result has 255 entries.
\<close>

theorem symbol_frequencies_bounds:
  "(symbol_frequencies L = Inl OutOfRange \<longleftrightarrow> (\<exists>b \<in> set L. 254 \<le> unat b)) \<and>
   ((\<forall>b \<in> set L. unat b \<le> 253) \<longleftrightarrow> (\<exists>C. symbol_frequencies L = Inr C \<and> length C = 255))"
proof -
  have fails: "(\<exists>e. count_symbols L (replicate 255 0) = Inl e) \<longleftrightarrow> (\<exists>b \<in> set L. 254 \<le> unat b)"
    by (simp add: count_symbols_fails_iff)
  show ?thesis
  proof (cases "count_symbols L (replicate 255 0)")
    case (Inl e)
    then have "e = OutOfRange" by (rule count_symbols_error)
    with Inl fails show ?thesis
      by (fastforce simp: symbol_frequencies_def)
  next
    case (Inr C)
    then have "length C = 255" using count_symbols_length by fastforce
    with Inr fails show ?thesis
      by (fastforce simp: symbol_frequencies_def accumulate_length)
  qed
qed

theorem symbol_frequencies_bounds_witness:
  "symbol_frequencies [1, 254] = Inl OutOfRange \<and> symbol_frequencies [255] = Inl OutOfRange
   \<and> (\<exists>C. symbol_frequencies [253, 0] = Inr C \<and> length C = 255)"
  using symbol_frequencies_bounds [of "[1, 254]"] symbol_frequencies_bounds [of "[255]"]
    symbol_frequencies_bounds [of "[253, 0]"]
  by simp

lemma count_symbols_nth:
  "count_symbols bs C = Inr C' \<Longrightarrow> j < length C \<Longrightarrow>
     C' ! j = C ! j + length (filter (\<lambda>b. unat b + 1 = j) bs)"
proof (induction bs arbitrary: C)
  case Nil
  then show ?case by simp
next
  case (Cons b bs)
  from Cons.prems have lt: "unat b + 1 < length C"
    by (auto split: if_splits)
  let ?C1 = "C[unat b + 1 := C ! (unat b + 1) + 1]"
  from Cons.prems lt have "count_symbols bs ?C1 = Inr C'" by simp
  then have "C' ! j = ?C1 ! j + length (filter (\<lambda>b. unat b + 1 = j) bs)"
    using Cons.IH [of ?C1] Cons.prems(2) by simp
  then show ?case using lt Cons.prems(2) by (auto simp: nth_list_update)
qed

lemma accumulate_nth:
  "j < length C \<Longrightarrow>
     accumulate i C ! j = (if j \<le> i then C ! j else (\<Sum>t = i..j. C ! t))"
proof (induction i C arbitrary: j rule: accumulate.induct)
  case (1 i C)
  show ?case
  proof (cases "i < length C - 1")
    case False
    then have "accumulate i C = C" by (subst accumulate.simps) simp
    moreover have "j \<le> i" using False "1.prems" by simp
    ultimately show ?thesis by simp
  next
    case True
    let ?C1 = "C[i + 1 := C ! (i + 1) + C ! i]"
    have step: "accumulate i C = accumulate (i + 1) ?C1"
      using True by (subst accumulate.simps) simp
    have IH: "accumulate (i + 1) ?C1 ! j
                = (if j \<le> i + 1 then ?C1 ! j else (\<Sum>t = i + 1..j. ?C1 ! t))"
      using "1.IH" [OF True, of j] "1.prems" by simp
    show ?thesis
    proof (cases "j \<le> i")
      case True
      then show ?thesis using step IH by simp
    next
      case False
      show ?thesis
      proof (cases "j = i + 1")
        case True
        have "(\<Sum>t = i..i + 1. C ! t) = C ! i + C ! (i + 1)"
          by (simp add: sum.atLeast_Suc_atMost)
        then show ?thesis using step IH True "1.prems" by simp
      next
        case ne: False
        with False have gt: "i + 1 < j" by simp
        have "(\<Sum>t = i + 1..j. ?C1 ! t) = ?C1 ! (i + 1) + (\<Sum>t = i + 2..j. ?C1 ! t)"
          using gt by (simp add: sum.atLeast_Suc_atMost)
        moreover have "(\<Sum>t = i + 2..j. ?C1 ! t) = (\<Sum>t = i + 2..j. C ! t)"
          by (rule sum.cong) auto
        moreover have "?C1 ! (i + 1) = C ! (i + 1) + C ! i"
          using gt "1.prems" by simp
        moreover have "(\<Sum>t = i..j. C ! t) = C ! i + (C ! (i + 1) + (\<Sum>t = i + 2..j. C ! t))"
          using gt by (simp add: sum.atLeast_Suc_atMost)
        ultimately show ?thesis using step IH gt by simp
      qed
    qed
  qed
qed

lemma sum_count_below:
  "(\<Sum>t = 0..c. length (filter (\<lambda>b. unat b + 1 = t) bs)) = length (filter (\<lambda>b. unat b < c) bs)"
proof (induction bs)
  case Nil
  show ?case by simp
next
  case (Cons b bs)
  have "(\<Sum>t = 0..c. length (filter (\<lambda>b. unat b + 1 = t) (b # bs)))
          = (\<Sum>t = 0..c. (if unat b + 1 = t then 1 else 0) + length (filter (\<lambda>b. unat b + 1 = t) bs))"
    by (rule sum.cong) auto
  also have "\<dots> = (\<Sum>t = 0..c. (if unat b + 1 = t then 1 else 0 :: nat))
                   + (\<Sum>t = 0..c. length (filter (\<lambda>b. unat b + 1 = t) bs))"
    by (simp add: sum.distrib)
  also have "(\<Sum>t = 0..c. (if unat b + 1 = t then 1 else 0 :: nat)) = (if unat b < c then 1 else 0)"
    by (simp add: sum.delta')  
  finally show ?case using Cons.IH by simp
qed

lemma symbol_frequencies_counts:
  assumes "symbol_frequencies L = Inr C" "c < 255"
  shows "length C = 255" "C ! c = length (filter (\<lambda>b. unat b < c) L)"
proof -
  from assms(1) obtain C0 where C0: "count_symbols L (replicate 255 0) = Inr C0" "C = accumulate 0 C0"
    by (auto simp: symbol_frequencies_def split: sum.splits)
  have len: "length C0 = 255" using count_symbols_length [OF C0(1)] by simp
  then show "length C = 255" using C0(2) by (simp add: accumulate_length)
  have nth: "C0 ! t = length (filter (\<lambda>b. unat b + 1 = t) L)" if "t < 255" for t
    using count_symbols_nth [OF C0(1), of t] that by simp
  have "C ! c = (\<Sum>t = 0..c. C0 ! t)"
    using accumulate_nth [of c C0 0] assms(2) len C0(2) by (cases "c = 0") auto
  also have "\<dots> = (\<Sum>t = 0..c. length (filter (\<lambda>b. unat b + 1 = t) L))"
    using assms(2) by (intro sum.cong) (auto simp: nth)
  also have "\<dots> = length (filter (\<lambda>b. unat b < c) L)"
    by (rule sum_count_below)
  finally show "C ! c = length (filter (\<lambda>b. unat b < c) L)" .
qed

lemma symbol_frequencies_ok:
  assumes "\<forall>b \<in> set L. unat b \<le> 253"
  shows "\<exists>C. symbol_frequencies L = Inr C"
proof -
  have "\<not> (\<exists>e. count_symbols L (replicate 255 0) = Inl e)"
    using assms by (auto simp: count_symbols_fails_iff)
  then obtain C0 where "count_symbols L (replicate 255 0) = Inr C0"
    by (cases "count_symbols L (replicate 255 0)") auto
  then show ?thesis by (simp add: symbol_frequencies_def)
qed


section \<open>Properties of the bitvector loader\<close>

lemma msb_bit_eq: "msb_bit buffer j = bit buffer (7 - j)"
  unfolding msb_bit_def
  by (simp add: one_and_eq bit_iff_odd_drop_bit even_iff_mod_2_eq_zero)

lemma byte_from_Cons_Suc: "byte_from (b # rest) buffer (Suc d) = byte_from rest b d"
  by (simp add: byte_from_def)

lemma byte_from_Cons_0: "byte_from (b # rest) buffer 0 = b"
  by (simp add: byte_from_def)

lemma byte_from_Nil: "byte_from [] buffer d = buffer"
  by (simp add: byte_from_def)

lemma unpack_byte_spec:
  assumes "j \<le> 8" "cnt < n" "n \<le> length B"
  shows "\<exists>B'. unpack_byte j buffer n cnt B = Inr (n \<le> cnt + (8 - j), min n (cnt + (8 - j)), B')
           \<and> length B' = length B
           \<and> (\<forall>k < length B. B' ! k =
                 (if cnt \<le> k \<and> k < cnt + (8 - j) \<and> k < n then msb_bit buffer (j + (k - cnt))
                  else B ! k))"
  using assms
proof (induction j buffer n cnt B rule: unpack_byte.induct)
  case (1 j buffer n cnt B)
  show ?case
  proof (cases "j < 8")
    case False
    with "1.prems" have "j = 8" by simp
    with "1.prems" show ?thesis by (subst unpack_byte.simps) auto
  next
    case j8: True
    let ?B1 = "B[cnt := msb_bit buffer j]"
    have vs: "vec_set B cnt (msb_bit buffer j) = Inr ?B1"
      using "1.prems" by (simp add: vec_set_def)
    show ?thesis
    proof (cases "cnt + 1 = n")
      case True
      have "unpack_byte j buffer n cnt B = Inr (True, n, ?B1)"
        using j8 vs True by (subst unpack_byte.simps) simp
      moreover have "n \<le> cnt + (8 - j)" "min n (cnt + (8 - j)) = n"
        using True j8 by auto
      moreover have "\<forall>k < length B. ?B1 ! k =
                 (if cnt \<le> k \<and> k < cnt + (8 - j) \<and> k < n then msb_bit buffer (j + (k - cnt))
                  else B ! k)"
        using True j8 "1.prems" by (auto simp: nth_list_update)
      ultimately show ?thesis by simp
    next
      case False
      have step: "unpack_byte j buffer n cnt B = unpack_byte (j + 1) buffer n (cnt + 1) ?B1"
        using j8 vs False by (subst unpack_byte.simps) simp
      have "\<exists>B'. unpack_byte (j + 1) buffer n (cnt + 1) ?B1
                = Inr (n \<le> cnt + 1 + (8 - (j + 1)), min n (cnt + 1 + (8 - (j + 1))), B')
           \<and> length B' = length ?B1
           \<and> (\<forall>k < length ?B1. B' ! k =
                 (if cnt + 1 \<le> k \<and> k < cnt + 1 + (8 - (j + 1)) \<and> k < n
                  then msb_bit buffer (j + 1 + (k - (cnt + 1)))
                  else ?B1 ! k))"
        using "1.IH" [OF j8 vs False] j8 False "1.prems" by simp
      then obtain B' where B':
        "unpack_byte (j + 1) buffer n (cnt + 1) ?B1
                = Inr (n \<le> cnt + 1 + (8 - (j + 1)), min n (cnt + 1 + (8 - (j + 1))), B')"
        "length B' = length B"
        "\<forall>k < length B. B' ! k =
                 (if cnt + 1 \<le> k \<and> k < cnt + 1 + (8 - (j + 1)) \<and> k < n
                  then msb_bit buffer (j + 1 + (k - (cnt + 1)))
                  else ?B1 ! k)"
        by auto
      have e1: "cnt + 1 + (8 - (j + 1)) = cnt + (8 - j)" using j8 by simp
      have "\<forall>k < length B. B' ! k =
                 (if cnt \<le> k \<and> k < cnt + (8 - j) \<and> k < n then msb_bit buffer (j + (k - cnt))
                  else B ! k)"
      proof (intro allI impI)
        fix k assume k: "k < length B"
        show "B' ! k = (if cnt \<le> k \<and> k < cnt + (8 - j) \<and> k < n then msb_bit buffer (j + (k - cnt))
                  else B ! k)"
        proof (cases "k = cnt")
          case True
          then show ?thesis using B'(3) k j8 "1.prems" by auto
        next
          case ne: False
          show ?thesis
          proof (cases "cnt < k")
            case True
            then have eq: "j + 1 + (k - (cnt + 1)) = j + (k - cnt)" by arith
            have c: "(cnt + 1 \<le> k \<and> k < cnt + 1 + (8 - (j + 1)) \<and> k < n)
                       = (cnt \<le> k \<and> k < cnt + (8 - j) \<and> k < n)"
              using True e1 by auto
            have "B' ! k = (if cnt + 1 \<le> k \<and> k < cnt + 1 + (8 - (j + 1)) \<and> k < n
                  then msb_bit buffer (j + 1 + (k - (cnt + 1)))
                  else ?B1 ! k)"
              using B'(3) k by blast
            then show ?thesis unfolding eq c using ne by simp
          next
            case False
            then show ?thesis using B'(3) k ne by auto
          qed
        qed
      qed
      moreover have "unpack_byte j buffer n cnt B
                       = Inr (n \<le> cnt + (8 - j), min n (cnt + (8 - j)), B')"
        using step B'(1) [unfolded e1] by (simp only:)
      ultimately show ?thesis using B'(2) by blast
    qed
  qed
qed

lemma read_bytes_spec:
  assumes "cnt = 8 * i" "length B = n"
  shows "\<exists>B'. read_bytes i n cnt buffer (Some s) B log = Inr (B', log)
           \<and> length B' = n
           \<and> (\<forall>k < n. B' ! k =
                 (if 8 * i \<le> k then msb_bit (byte_from s buffer (k div 8 - i)) (k mod 8)
                  else B ! k))"
  using assms
proof (induction i n cnt buffer "Some s" B log arbitrary: s rule: read_bytes.induct)
  case (1 i n cnt buffer B log)
  show ?case
  proof (cases "i < (n + 7) div 8")
    case False
    then have "\<forall>k < n. \<not> 8 * i \<le> k" by auto
    with False "1.prems" show ?thesis by (subst read_bytes.simps) simp
  next
    case True
    then have lt: "cnt < n" using "1.prems" by simp
    define buffer' where "buffer' = byte_from s buffer 0"
    define s' where "s' = tl s"
    have fr: "fread1 (Some s) buffer = Inr (if s = [] then 0 else 1, buffer', Some s')"
      by (cases s) (simp_all add: fread1_def buffer'_def s'_def byte_from_def)
    have bf: "byte_from s buffer (Suc d) = byte_from s' buffer' d" for d
      by (cases s) (simp_all add: buffer'_def s'_def byte_from_def)
    obtain B1 where B1:
      "unpack_byte 0 buffer' n cnt B = Inr (n \<le> cnt + 8, min n (cnt + 8), B1)"
      "length B1 = length B"
      "\<forall>k < length B. B1 ! k =
          (if cnt \<le> k \<and> k < cnt + 8 \<and> k < n then msb_bit buffer' (k - cnt) else B ! k)"
      using unpack_byte_spec [of 0 cnt n B buffer'] lt "1.prems" by auto
    have B1': "\<forall>k < n. B1 ! k =
          (if 8 * i \<le> k \<and> k < 8 * i + 8 then msb_bit (byte_from s buffer (k div 8 - i)) (k mod 8)
           else B ! k)"
    proof (intro allI impI)
      fix k assume k: "k < n"
      show "B1 ! k = (if 8 * i \<le> k \<and> k < 8 * i + 8
                      then msb_bit (byte_from s buffer (k div 8 - i)) (k mod 8) else B ! k)"
      proof (cases "8 * i \<le> k \<and> k < 8 * i + 8")
        case True
        then have d: "k div 8 = i" by auto
        have "k - cnt = k mod 8" using mult_div_mod_eq [of 8 k] d "1.prems" by arith
        note d this
        then show ?thesis using B1(3) k True "1.prems" by (simp add: buffer'_def)
      next
        case False
        then show ?thesis using B1(3) k "1.prems" by auto
      qed
    qed
    show ?thesis
    proof (cases "n \<le> cnt + 8")
      case ret: True
      have "read_bytes i n cnt buffer (Some s) B log = Inr (B1, log)"
        using True fr B1(1) ret by (subst read_bytes.simps) simp
      moreover have "\<forall>k < n. B1 ! k =
                 (if 8 * i \<le> k then msb_bit (byte_from s buffer (k div 8 - i)) (k mod 8)
                  else B ! k)"
        using B1' ret "1.prems" by auto
      ultimately show ?thesis using B1(2) "1.prems" by simp
    next
      case cont: False
      have step: "read_bytes i n cnt buffer (Some s) B log
                    = read_bytes (i + 1) n (cnt + 8) buffer' (Some s') B1 log"
        using True fr B1(1) cont by (subst read_bytes.simps) simp
      have "\<exists>B'. read_bytes (i + 1) n (min n (cnt + 8)) buffer' (Some s') B1
                    (if (if s = [] then 0 else (1::int)) < 0
                     then log @ [''ERROR during bitvector loading!''] else log)
                  = Inr (B', (if (if s = [] then 0 else (1::int)) < 0
                     then log @ [''ERROR during bitvector loading!''] else log))
           \<and> length B' = n
           \<and> (\<forall>k < n. B' ! k =
                 (if 8 * (i + 1) \<le> k then msb_bit (byte_from s' buffer' (k div 8 - (i + 1))) (k mod 8)
                  else B1 ! k))"
        apply (rule "1.hyps" [OF True fr refl refl refl B1(1) refl refl])
        using cont "1.prems" B1(2) by auto
      then obtain B' where B':
        "read_bytes (i + 1) n (cnt + 8) buffer' (Some s') B1 log = Inr (B', log)"
        "length B' = n"
        "\<forall>k < n. B' ! k =
                 (if 8 * (i + 1) \<le> k then msb_bit (byte_from s' buffer' (k div 8 - (i + 1))) (k mod 8)
                  else B1 ! k)"
        using cont by (auto simp: min_def split: if_splits)
      have "\<forall>k < n. B' ! k =
                 (if 8 * i \<le> k then msb_bit (byte_from s buffer (k div 8 - i)) (k mod 8)
                  else B ! k)"
      proof (intro allI impI)
        fix k assume k: "k < n"
        show "B' ! k = (if 8 * i \<le> k then msb_bit (byte_from s buffer (k div 8 - i)) (k mod 8)
                  else B ! k)"
        proof (cases "8 * (i + 1) \<le> k")
          case True
          then have "k div 8 - i = Suc (k div 8 - (i + 1))" by auto
          then show ?thesis using B'(3) k True bf by auto
        next
          case False
          then show ?thesis using B'(3) B1' k by auto
        qed
      qed
      with step B'(1,2) show ?thesis by simp
    qed
  qed
qed

lemma fread1_count: "fread1 fin buffer = Inr (e, b, f) \<Longrightarrow> e = 0 \<or> e = 1"
  by (auto simp: fread1_def split: option.splits list.splits)

lemma read_bytes_log:
  "read_bytes i n cnt buffer fin B log = Inr (B', log') \<Longrightarrow> log' = log"
proof (induction i n cnt buffer fin B log rule: read_bytes.induct)
  case (1 i n cnt buffer fin B log)
  show ?case
  proof (cases "i < (n + 7) div 8")
    case False
    with "1.prems" show ?thesis by (subst (asm) read_bytes.simps) simp
  next
    case True
    show ?thesis
    proof (cases "fread1 fin buffer")
      case (Inl e)
      with True "1.prems" show ?thesis by (subst (asm) read_bytes.simps) simp
    next
      case (Inr r)
      obtain e buffer' fin' where r: "r = (e, buffer', fin')" by (cases r)
      have e: "\<not> e < 0" using fread1_count Inr r by fastforce
      show ?thesis
      proof (cases "unpack_byte 0 buffer' n cnt B")
        case (Inl e')
        with True Inr r "1.prems" show ?thesis by (subst (asm) read_bytes.simps) simp
      next
        case u: (Inr u)
        obtain returned cnt' B1 where u': "u = (returned, cnt', B1)" by (cases u)
        show ?thesis
        proof (cases returned)
          case True
          with \<open>i < (n + 7) div 8\<close> Inr r u u' e "1.prems" show ?thesis
            by (subst (asm) read_bytes.simps) simp
        next
          case False
          have "read_bytes (i + 1) n cnt' buffer' fin' B1 log = Inr (B', log')"
            using \<open>i < (n + 7) div 8\<close> Inr r u u' e False "1.prems"
            by (subst (asm) read_bytes.simps) simp
          then show ?thesis
            using "1.IH" [OF \<open>i < (n + 7) div 8\<close> Inr r [symmetric] refl refl u u' [symmetric] refl False] e
            by simp
        qed
      qed
    qed
  qed
qed

lemma load_bitvector_present:
  assumes "fs filename = Some bs" "length B = n"
  shows "load_bitvector fs B filename n
           = Inr (map (\<lambda>k. msb_bit (byte_from bs 0 (k div 8)) (k mod 8)) [0..<n], [])"
proof -
  obtain B' where B': "read_bytes 0 n 0 0 (Some bs) B [] = Inr (B', [])" "length B' = n"
    "\<forall>k < n. B' ! k = (if 8 * 0 \<le> k then msb_bit (byte_from bs 0 (k div 8 - 0)) (k mod 8) else B ! k)"
    using read_bytes_spec [of 0 0 B n 0 bs "[]"] assms by auto
  have "B' = map (\<lambda>k. msb_bit (byte_from bs 0 (k div 8)) (k mod 8)) [0..<n]"
    using B'(2,3) by (intro nth_equalityI) auto
  with B'(1) assms show ?thesis by (simp add: load_bitvector_def fopen_rb_def)
qed

lemma load_bitvector_missing:
  assumes "fs filename = None" "0 < n"
  shows "load_bitvector fs B filename n = Inl NullStream"
  using assms by (simp add: load_bitvector_def fopen_rb_def read_bytes.simps [of 0] fread1_def)

text \<open>
  Claim C10. \<open>load_bitvector\<close> never reports a read failure. The value returned by
  \<open>fread\<close> is a count (0 at end of file), so the test \<open>e < 0\<close> never holds and the
  message is never printed, whatever the outcome. The result of \<open>fopen\<close> is not
  checked: on a file that cannot be opened the first \<open>fread\<close> is on the null stream, and
  nothing is reported before. On a file shorter than \<open>(n + 7) div 8\<close> bytes the function
  completes with an empty log, and every position past the bytes present is filled from
  the last value of the buffer (the last byte read, or the initial 0 for an empty file).
\<close>

theorem load_bitvector_never_reports:
  "(\<forall>fin buffer e b f. fread1 fin buffer = Inr (e, b, f) \<longrightarrow> \<not> e < 0)
   \<and> (\<forall>B' log. load_bitvector fs B filename n = Inr (B', log) \<longrightarrow> log = [])
   \<and> (fs filename = None \<and> 0 < n \<longrightarrow> load_bitvector fs B filename n = Inl NullStream)
   \<and> (\<forall>bs. fs filename = Some bs \<and> length B = n \<and> length bs < (n + 7) div 8 \<longrightarrow>
         load_bitvector fs B filename n
           = Inr (map (\<lambda>k. msb_bit (if k div 8 < length bs then bs ! (k div 8) else last (0 # bs))
                                     (k mod 8)) [0..<n], []))"
proof (intro conjI allI impI)
  fix fin buffer e b f
  assume "fread1 fin buffer = Inr (e :: int, b, f)"
  then show "\<not> e < 0" using fread1_count by fastforce
next
  fix B' log
  assume "load_bitvector fs B filename n = Inr (B', log)"
  then show "log = []" unfolding load_bitvector_def by (rule read_bytes_log)
next
  assume "fs filename = None \<and> 0 < n"
  then show "load_bitvector fs B filename n = Inl NullStream"
    by (simp add: load_bitvector_missing)
next
  fix bs
  assume "fs filename = Some bs \<and> length B = n \<and> length bs < (n + 7) div 8"
  then show "load_bitvector fs B filename n
           = Inr (map (\<lambda>k. msb_bit (if k div 8 < length bs then bs ! (k div 8) else last (0 # bs))
                                     (k mod 8)) [0..<n], [])"
    by (simp add: load_bitvector_present byte_from_def)
qed

theorem load_bitvector_never_reports_witness:
  "load_bitvector [''f.din'' \<mapsto> [0xA5]] (replicate 20 False) ''f.din'' 20
     = Inr ([True, False, True, False, False, True, False, True,
             True, False, True, False, False, True, False, True,
             True, False, True, False], [])
   \<and> load_bitvector Map.empty (replicate 20 False) ''f.din'' 20 = Inl NullStream"
proof -
  have a: "[''f.din'' \<mapsto> [0xA5 :: u8]] ''f.din'' = Some [0xA5]
      \<and> length (replicate 20 False) = 20 \<and> length [0xA5 :: u8] < (20 + 7) div 8"
    by simp
  have b: "(Map.empty :: filesystem) ''f.din'' = None \<and> (0::nat) < 20" by simp
  have c: "map (\<lambda>k. msb_bit (if k div 8 < length [0xA5 :: u8] then [0xA5 :: u8] ! (k div 8)
                               else last (0 # [0xA5])) (k mod 8)) [0..<20]
         = [True, False, True, False, False, True, False, True,
             True, False, True, False, False, True, False, True,
             True, False, True, False]"
    by code_simp
  show ?thesis
    using load_bitvector_never_reports [of "[''f.din'' \<mapsto> [0xA5]]" "replicate 20 False" "''f.din''" 20]
      load_bitvector_never_reports [of Map.empty "replicate 20 False" "''f.din''" 20] a b
    unfolding c [symmetric] by blast
qed


section \<open>Properties of the PFWG load path\<close>

lemma load_bitvector_unpacked:
  assumes "fs filename = Some bs" "length B = n"
  shows "load_bitvector fs B filename n = Inr (unpacked_bits bs n, [])"
  using assms by (simp add: load_bitvector_present unpacked_bits_def)

lemma length_unpacked_bits [simp]: "length (unpacked_bits bs n) = n"
  by (simp add: unpacked_bits_def)

lemma unpacked_bits_nth:
  assumes "j < 8" "8 * b + j < n" "b < length bs"
  shows "unpacked_bits bs n ! (8 * b + j) = bit (bs ! b) (7 - j)"
proof -
  have "(8 * b + j) div 8 = b" "(8 * b + j) mod 8 = j" using assms(1) by auto
  then show ?thesis using assms by (simp add: unpacked_bits_def byte_from_def msb_bit_eq)
qed

lemma construct_from_pfwg_eq:
  assumes "fs (basename @ ''.din'') = Some db" "fs (basename @ ''.dout'') = Some ob"
    and "L = load_vector_from_file fs (basename @ ''.L'')"
    and "symbol_frequencies L = Inr C"
  shows "construct_from_pfwg fs basename =
           Inr (\<lparr>text_len = length (load_vector_from_file fs basename),
                 m_L = map unat L,
                 m_C = C,
                 m_dout = unpacked_bits ob (length L + 1),
                 m_dout_rank = init_support (unpacked_bits ob (length L + 1)),
                 m_dout_select = init_support (unpacked_bits ob (length L + 1)),
                 m_din = unpacked_bits db (length L + 1),
                 m_din_rank = init_support (unpacked_bits db (length L + 1)),
                 m_din_select = init_support (unpacked_bits db (length L + 1))\<rparr>, [])"
  using assms
  by (simp add: construct_from_pfwg_def Let_def ebind_def load_bitvector_unpacked)

lemma invert_construct_from_pfwg_eq:
  assumes "fs (basename @ ''.din'') = Some db" "fs (basename @ ''.dout'') = Some ob"
    and "L = load_vector_from_file fs (basename @ ''.L'')"
    and "symbol_frequencies L = Inr C"
  shows "invert_construct_from_pfwg fs basename =
           Inr (\<lparr>text_len = orig_size,
                 m_L = map unat L,
                 m_C = C,
                 m_dout = unpacked_bits ob (length L + 1),
                 m_dout_rank = init_support (unpacked_bits ob (length L + 1)),
                 m_dout_select = init_support (unpacked_bits ob (length L + 1)),
                 m_din = unpacked_bits db (length L + 1),
                 m_din_rank = init_support (unpacked_bits db (length L + 1)),
                 m_din_select = init_support (unpacked_bits db (length L + 1))\<rparr>, [])"
  using assms
  by (simp add: invert_construct_from_pfwg_def create_tfm_def Let_def ebind_def load_bitvector_unpacked)

text \<open>
  Claim C5, as stated, says that the \<open>C\<close> recomputed on the PFWG load path has length
  \<open>\<sigma> + 1\<close>. It does not: on \<open>fs_small\<close> the loaded last column \<open>b 0 a\<close> has three
  distinct symbols, so \<open>\<sigma> + 1 = 4\<close>, and \<open>C\<close> has 255 entries.
\<close>

theorem pfwg_load_C_length_counterexample:
  "\<exists>tfm log. construct_from_pfwg fs_small ''t'' = Inr (tfm, log)
      \<and> m_L tfm = [98, 0, 97] \<and> wt_sigma (m_L tfm) + 1 = 4 \<and> length (m_C tfm) = 255"
proof -
  obtain C where C: "symbol_frequencies [98, 0, 97] = Inr C"
    using symbol_frequencies_ok [of "[98, 0, 97]"] by auto
  have len: "length C = 255" using symbol_frequencies_counts(1) [OF C, of 0] by simp
  have "construct_from_pfwg fs_small ''t'' = Inr (\<lparr>text_len = length (load_vector_from_file fs_small ''t''),
                 m_L = map unat [98, 0, 97 :: u8],
                 m_C = C,
                 m_dout = unpacked_bits [0xF0] (length [98, 0, 97 :: u8] + 1),
                 m_dout_rank = init_support (unpacked_bits [0xF0] (length [98, 0, 97 :: u8] + 1)),
                 m_dout_select = init_support (unpacked_bits [0xF0] (length [98, 0, 97 :: u8] + 1)),
                 m_din = unpacked_bits [0xF0] (length [98, 0, 97 :: u8] + 1),
                 m_din_rank = init_support (unpacked_bits [0xF0] (length [98, 0, 97 :: u8] + 1)),
                 m_din_select = init_support (unpacked_bits [0xF0] (length [98, 0, 97 :: u8] + 1))\<rparr>, [])"
    by (rule construct_from_pfwg_eq [where db = "[0xF0]" and ob = "[0xF0]"])
       (simp_all add: fs_small_def load_vector_from_file_def C)
  then show ?thesis using len by (simp add: wt_sigma_def)
qed

text \<open>
  Claim C5, amended. When the three side files exist and every byte of the \<open>.L\<close> file is
  at most 253, the PFWG load path returns an index whose \<open>L\<close> is the byte sequence of the
  \<open>.L\<close> file, whose \<open>din\<close> and \<open>dout\<close> have exactly \<open>|L| + 1\<close> bits, bit \<open>j\<close> of
  byte \<open>b\<close> of the file (counted from the most significant bit) being bit \<open>8b + j\<close> of the
  vector and the bits past \<open>|L| + 1\<close> being ignored, whose four rank/select supports are
  built over these vectors, and whose \<open>C\<close> has the fixed length 255 (not \<open>\<sigma> + 1\<close>), with
  \<open>C[c]\<close> the number of positions of \<open>L\<close> holding a symbol strictly less than \<open>c\<close>, for
  every \<open>c < 255\<close>.
\<close>

theorem pfwg_load_path:
  assumes "fs (basename @ ''.L'') = Some Lb"
    and "fs (basename @ ''.din'') = Some db"
    and "fs (basename @ ''.dout'') = Some ob"
    and "\<forall>b \<in> set Lb. unat b \<le> 253"
  shows "\<exists>tfm. construct_from_pfwg fs basename = Inr (tfm, [])
     \<and> m_L tfm = map unat Lb
     \<and> length (m_din tfm) = length Lb + 1 \<and> length (m_dout tfm) = length Lb + 1
     \<and> (\<forall>b j. j < 8 \<and> 8 * b + j < length Lb + 1 \<and> b < length db
            \<longrightarrow> m_din tfm ! (8 * b + j) = bit (db ! b) (7 - j))
     \<and> (\<forall>b j. j < 8 \<and> 8 * b + j < length Lb + 1 \<and> b < length ob
            \<longrightarrow> m_dout tfm ! (8 * b + j) = bit (ob ! b) (7 - j))
     \<and> length (m_C tfm) = 255
     \<and> (\<forall>c < 255. m_C tfm ! c = length (filter (\<lambda>x. x < c) (m_L tfm)))
     \<and> m_din_rank tfm = init_support (m_din tfm) \<and> m_din_select tfm = init_support (m_din tfm)
     \<and> m_dout_rank tfm = init_support (m_dout tfm) \<and> m_dout_select tfm = init_support (m_dout tfm)"
proof -
  have L: "Lb = load_vector_from_file fs (basename @ ''.L'')"
    using assms(1) by (simp add: load_vector_from_file_def)
  obtain C where C: "symbol_frequencies Lb = Inr C"
    using symbol_frequencies_ok [OF assms(4)] by blast
  have len: "length C = 255" using symbol_frequencies_counts(1) [OF C, of 0] by simp
  have cnt: "C ! c = length (filter (\<lambda>x. x < c) (map unat Lb))" if "c < 255" for c
    using symbol_frequencies_counts(2) [OF C that] by (simp add: filter_map comp_def)
  define tfm where "tfm = \<lparr>text_len = length (load_vector_from_file fs basename),
                 m_L = map unat Lb,
                 m_C = C,
                 m_dout = unpacked_bits ob (length Lb + 1),
                 m_dout_rank = init_support (unpacked_bits ob (length Lb + 1)),
                 m_dout_select = init_support (unpacked_bits ob (length Lb + 1)),
                 m_din = unpacked_bits db (length Lb + 1),
                 m_din_rank = init_support (unpacked_bits db (length Lb + 1)),
                 m_din_select = init_support (unpacked_bits db (length Lb + 1))\<rparr>"
  have eq: "construct_from_pfwg fs basename = Inr (tfm, [])"
    unfolding tfm_def by (rule construct_from_pfwg_eq [OF assms(2) assms(3) L C])
  have sel: "m_L tfm = map unat Lb" "m_C tfm = C"
    "m_din tfm = unpacked_bits db (length Lb + 1)" "m_dout tfm = unpacked_bits ob (length Lb + 1)"
    "m_din_rank tfm = init_support (m_din tfm)" "m_din_select tfm = init_support (m_din tfm)"
    "m_dout_rank tfm = init_support (m_dout tfm)" "m_dout_select tfm = init_support (m_dout tfm)"
    by (simp_all add: tfm_def)
  have din: "\<forall>b j. j < 8 \<and> 8 * b + j < length Lb + 1 \<and> b < length db
            \<longrightarrow> m_din tfm ! (8 * b + j) = bit (db ! b) (7 - j)"
    unfolding sel(3) using unpacked_bits_nth by blast
  have dout: "\<forall>b j. j < 8 \<and> 8 * b + j < length Lb + 1 \<and> b < length ob
            \<longrightarrow> m_dout tfm ! (8 * b + j) = bit (ob ! b) (7 - j)"
    unfolding sel(4) using unpacked_bits_nth by blast
  have Cs: "\<forall>c < 255. m_C tfm ! c = length (filter (\<lambda>x. x < c) (m_L tfm))"
    unfolding sel(1,2) using cnt by blast
  have lens: "length (m_din tfm) = length Lb + 1" "length (m_dout tfm) = length Lb + 1"
    "length (m_C tfm) = 255"
    unfolding sel(2,3,4) by (simp_all add: len)
  show ?thesis
    using eq sel(1) lens din dout Cs sel(5-8) by blast
qed

theorem pfwg_load_path_witness:
  "\<exists>tfm. construct_from_pfwg fs_small ''t'' = Inr (tfm, [])
     \<and> m_L tfm = [98, 0, 97] \<and> length (m_C tfm) = 255 \<and> length (m_din tfm) = 4
     \<and> m_din_rank tfm = init_support (m_din tfm)"
proof -
  have p1: "fs_small (''t'' @ ''.L'') = Some [98, 0, 97]"
    and p2: "fs_small (''t'' @ ''.din'') = Some [0xF0]"
    and p3: "fs_small (''t'' @ ''.dout'') = Some [0xF0]"
    by (simp_all add: fs_small_def)
  have p4: "\<forall>b \<in> set [98, 0, 97 :: u8]. unat b \<le> 253" by simp
  from pfwg_load_path [OF p1 p2 p3 p4]
  obtain tfm where "construct_from_pfwg fs_small ''t'' = Inr (tfm, [])"
     "m_L tfm = map unat [98, 0, 97 :: u8]" "length (m_C tfm) = 255"
     "length (m_din tfm) = length [98, 0, 97 :: u8] + 1"
     "m_din_rank tfm = init_support (m_din tfm)"
    by blast
  then show ?thesis by (intro exI [of _ tfm]) simp
qed

text \<open>
  Claim C6, amended. The loader has no dimension check. Whenever the \<open>.din\<close> and
  \<open>.dout\<close> files can be opened and every byte of \<open>L\<close> is at most 253, both loaders (the
  one of the header and the one of the inverter) return an index and print nothing,
  whatever the lengths of the two files and the numbers of set bits in them: \<open>din\<close> and
  \<open>dout\<close> always have \<open>|L| + 1\<close> bits, unpacked from the bytes present and padded from the
  last byte read.
\<close>

theorem pfwg_load_never_aborts:
  assumes "fs (basename @ ''.din'') = Some db"
    and "fs (basename @ ''.dout'') = Some ob"
    and "L = load_vector_from_file fs (basename @ ''.L'')"
    and "\<forall>b \<in> set L. unat b \<le> 253"
  shows "\<exists>tfm tfm'. construct_from_pfwg fs basename = Inr (tfm, [])
     \<and> invert_construct_from_pfwg fs basename = Inr (tfm', [])
     \<and> m_din tfm = unpacked_bits db (length L + 1) \<and> m_dout tfm = unpacked_bits ob (length L + 1)
     \<and> m_din tfm' = m_din tfm \<and> m_dout tfm' = m_dout tfm
     \<and> length (m_din tfm) = length L + 1 \<and> length (m_dout tfm) = length L + 1"
proof -
  obtain C where C: "symbol_frequencies L = Inr C"
    using symbol_frequencies_ok [OF assms(4)] by blast
  obtain tfm where t: "construct_from_pfwg fs basename = Inr (tfm, [])"
      "m_din tfm = unpacked_bits db (length L + 1)" "m_dout tfm = unpacked_bits ob (length L + 1)"
    using construct_from_pfwg_eq [OF assms(1) assms(2) assms(3) C] by simp
  obtain tfm' where t': "invert_construct_from_pfwg fs basename = Inr (tfm', [])"
      "m_din tfm' = unpacked_bits db (length L + 1)" "m_dout tfm' = unpacked_bits ob (length L + 1)"
    using invert_construct_from_pfwg_eq [OF assms(1) assms(2) assms(3) C] by simp
  have "length (m_din tfm) = length L + 1" "length (m_dout tfm) = length L + 1"
    using t(2,3) by simp_all
  then show ?thesis using t t' by auto
qed

theorem pfwg_load_never_aborts_witness:
  "\<exists>tfm tfm'. construct_from_pfwg fs_mismatch ''m'' = Inr (tfm, [])
     \<and> invert_construct_from_pfwg fs_mismatch ''m'' = Inr (tfm', [])
     \<and> length (m_din tfm) = 4 \<and> length (m_dout tfm') = 4"
proof -
  have p1: "fs_mismatch (''m'' @ ''.din'') = Some []"
    and p2: "fs_mismatch (''m'' @ ''.dout'') = Some [0xFF, 0xFF, 0xFF]"
    and p3: "[98, 0, 97] = load_vector_from_file fs_mismatch (''m'' @ ''.L'')"
    by (simp_all add: fs_mismatch_def load_vector_from_file_def)
  have p4: "\<forall>b \<in> set [98, 0, 97 :: u8]. unat b \<le> 253" by simp
  from pfwg_load_never_aborts [OF p1 p2 p3 p4]
  obtain tfm tfm' where "construct_from_pfwg fs_mismatch ''m'' = Inr (tfm, [])"
     "invert_construct_from_pfwg fs_mismatch ''m'' = Inr (tfm', [])"
     "m_dout tfm' = m_dout tfm"
     "length (m_din tfm) = length [98, 0, 97 :: u8] + 1"
     "length (m_dout tfm) = length [98, 0, 97 :: u8] + 1"
    by blast
  then show ?thesis by (intro exI [of _ tfm] exI [of _ tfm']) simp
qed

text \<open>
  Claim C6, as stated, says that a dimension mismatch aborts loading. On \<open>fs_mismatch\<close>
  the \<open>.din\<close> file has no byte and the \<open>.dout\<close> file has three where one is expected,
  and the loaded vectors have 0 and 4 set bits; both loaders return an index all the same.
\<close>

theorem pfwg_load_mismatch_counterexample:
  "\<exists>tfm tfm'. construct_from_pfwg fs_mismatch ''m'' = Inr (tfm, [])
     \<and> invert_construct_from_pfwg fs_mismatch ''m'' = Inr (tfm', [])
     \<and> length (m_L tfm) = 3
     \<and> fs_mismatch ''m.din'' = Some [] \<and> fs_mismatch ''m.dout'' = Some [0xFF, 0xFF, 0xFF]
     \<and> popcount (m_din tfm) = 0 \<and> popcount (m_dout tfm) = 4
     \<and> popcount (m_din tfm') = 0 \<and> popcount (m_dout tfm') = 4"
proof -
  obtain C where C: "symbol_frequencies [98, 0, 97] = Inr C"
    using symbol_frequencies_ok [of "[98, 0, 97]"] by auto
  have L: "[98, 0, 97] = load_vector_from_file fs_mismatch (''m'' @ ''.L'')"
    by (simp add: fs_mismatch_def load_vector_from_file_def)
  have din: "fs_mismatch (''m'' @ ''.din'') = Some []"
    and dout: "fs_mismatch (''m'' @ ''.dout'') = Some [0xFF, 0xFF, 0xFF]"
    by (simp_all add: fs_mismatch_def)
  have b0: "unpacked_bits [] (length [98, 0, 97 :: u8] + 1) = [False, False, False, False]"
    by code_simp
  have b1: "unpacked_bits [0xFF, 0xFF, 0xFF] (length [98, 0, 97 :: u8] + 1) = [True, True, True, True]"
    by code_simp
  obtain tfm where t: "construct_from_pfwg fs_mismatch ''m'' = Inr (tfm, [])"
      "m_din tfm = [False, False, False, False]" "m_dout tfm = [True, True, True, True]"
      "m_L tfm = [98, 0, 97]"
    using construct_from_pfwg_eq [OF din dout L C] unfolding b0 b1 by simp
  obtain tfm' where t': "invert_construct_from_pfwg fs_mismatch ''m'' = Inr (tfm', [])"
      "m_din tfm' = [False, False, False, False]" "m_dout tfm' = [True, True, True, True]"
    using invert_construct_from_pfwg_eq [OF din dout L C] unfolding b0 b1 by simp
  have "popcount (m_din tfm) = 0" "popcount (m_dout tfm) = 4"
     "popcount (m_din tfm') = 0" "popcount (m_dout tfm') = 4" "length (m_L tfm) = 3"
    using t t' by (simp_all add: popcount_def)
  then show ?thesis using t(1) t'(1) din dout by auto
qed


section \<open>Rank and select\<close>

lemma rank1_Nil [simp]: "rank1 [] i = 0"
  by (simp add: rank1_def)

lemma rank1_0 [simp]: "rank1 bv 0 = 0"
  by (simp add: rank1_def)

lemma rank1_Cons_Suc: "rank1 (b # bs) (Suc i) = (if b then 1 else 0) + rank1 bs i"
  by (simp add: rank1_def)

lemma rank1_le_popcount: "rank1 bv i \<le> popcount bv"
proof -
  have "filter id bv = filter id (take i bv) @ filter id (drop i bv)"
    by (metis append_take_drop_id filter_append)
  then have "length (filter id bv) = length (filter id (take i bv)) + length (filter id (drop i bv))"
    by (metis length_append)
  then show ?thesis by (simp add: rank1_def popcount_def)
qed

lemma rank1_all: "length bv \<le> i \<Longrightarrow> rank1 bv i = popcount bv"
  by (simp add: rank1_def popcount_def)

lemma rank1_Suc: "i < length bv \<Longrightarrow> rank1 bv (Suc i) = rank1 bv i + (if bv ! i then 1 else 0)"
  by (simp add: rank1_def take_Suc_conv_app_nth)

lemma rank1_mono: "i \<le> j \<Longrightarrow> rank1 bv i \<le> rank1 bv j"
proof (induction j)
  case 0
  then show ?case by simp
next
  case (Suc j)
  show ?case
  proof (cases "i = Suc j")
    case True
    then show ?thesis by simp
  next
    case False
    with Suc have le: "rank1 bv i \<le> rank1 bv j" by simp
    show ?thesis
    proof (cases "j < length bv")
      case True
      then show ?thesis using le by (simp add: rank1_Suc)
    next
      case False
      then show ?thesis using le by (simp add: rank1_all)
    qed
  qed
qed

lemma select1_Some:
  "select1 bv k = Some p \<Longrightarrow> p < length bv \<and> bv ! p \<and> 0 < k \<and> rank1 bv p + 1 = k"
proof (induction bv arbitrary: k p)
  case Nil
  then show ?case by simp
next
  case (Cons b bs)
  from Cons.prems have k: "0 < k" by (auto split: if_splits)
  show ?case
  proof (cases b)
    case True
    show ?thesis
    proof (cases "k = 1")
      case True
      with Cons.prems \<open>b\<close> show ?thesis by simp
    next
      case False
      with Cons.prems \<open>b\<close> k obtain q where q: "select1 bs (k - 1) = Some q" "p = Suc q"
        by auto
      from Cons.IH [OF q(1)] show ?thesis using q(2) \<open>b\<close> k by (simp add: rank1_Cons_Suc)
    qed
  next
    case False
    with Cons.prems k obtain q where q: "select1 bs k = Some q" "p = Suc q"
      by auto
    from Cons.IH [OF q(1)] show ?thesis using q(2) False by (simp add: rank1_Cons_Suc)
  qed
qed

lemma select1_exists:
  "0 < k \<Longrightarrow> k \<le> popcount bv \<Longrightarrow> \<exists>p. select1 bv k = Some p"
proof (induction bv arbitrary: k)
  case Nil
  then show ?case by (simp add: popcount_def)
next
  case (Cons b bs)
  show ?case
  proof (cases b)
    case True
    show ?thesis
    proof (cases "k = 1")
      case True
      with \<open>b\<close> show ?thesis by simp
    next
      case False
      with Cons.prems \<open>b\<close> have "0 < k - 1" "k - 1 \<le> popcount bs"
        by (auto simp: popcount_def)
      from Cons.IH [OF this] show ?thesis using \<open>b\<close> False Cons.prems(1) by auto
    qed
  next
    case False
    with Cons.prems have "k \<le> popcount bs" by (simp add: popcount_def)
    from Cons.IH [OF Cons.prems(1) this] show ?thesis using False Cons.prems(1) by auto
  qed
qed

lemma select1_rank1_le:
  assumes "select1 bv (rank1 bv (Suc i)) = Some p" "i < length bv"
  shows "p \<le> i"
proof (rule ccontr)
  assume "\<not> p \<le> i"
  then have "Suc i \<le> p" by simp
  then have "rank1 bv (Suc i) \<le> rank1 bv p" by (rule rank1_mono)
  moreover have "rank1 bv p + 1 = rank1 bv (Suc i)" using select1_Some [OF assms(1)] by simp
  ultimately show False by simp
qed


section \<open>The backward step\<close>

lemma ebind_Inr [simp]: "ebind (Inr x) f = f x"
  by (simp add: ebind_def)

lemma ebind_Inl [simp]: "ebind (Inl e) f = Inl e"
  by (simp add: ebind_def)

lemma ebind_eq_Inr:
  "ebind m f = Inr y \<longleftrightarrow> (\<exists>x. m = Inr x \<and> f x = Inr y)"
  by (cases m) simp_all

lemma rank_query_ready:
  "sup_ready s = Some v \<Longrightarrow> i \<le> length v \<Longrightarrow> rank_query s i = Inr (rank1 v i)"
  by (simp add: rank_query_def)

lemma select_query_ready:
  "sup_ready s = Some v \<Longrightarrow> select1 v k = Some p \<Longrightarrow> select_query s k = Inr p"
  by (simp add: select_query_def)

lemma well_formed_step:
  assumes wf: "well_formed tfm" and i: "i < length (m_L tfm)"
    and c_def: "c = m_L tfm ! i"
    and j_def: "j = m_C tfm ! c + rank_c (m_L tfm) c i"
    and k_def: "k = rank1 (m_din tfm) (j + 1)"
  shows "c < length (m_C tfm)" "j < length (m_L tfm)"
    "\<exists>s. select1 (m_din tfm) k = Some s \<and> s \<le> j"
    "\<exists>p. select1 (m_dout tfm) k = Some p \<and> p < length (m_L tfm)"
proof -
  let ?m = "length (m_L tfm)"
  from wf i show c: "c < length (m_C tfm)" and j: "j < ?m"
    by (simp_all add: well_formed_def c_def j_def)
  from wf have len: "length (m_din tfm) = ?m + 1" "length (m_dout tfm) = ?m + 1"
    and last: "m_din tfm ! ?m" "m_dout tfm ! ?m"
    and first: "m_din tfm ! 0"
    and pc: "popcount (m_dout tfm) = popcount (m_din tfm)"
    by (simp_all add: well_formed_def)
  have "rank1 (m_din tfm) (Suc 0) \<le> k" unfolding k_def by (rule rank1_mono) simp
  moreover have "rank1 (m_din tfm) (Suc 0) = 1" using first len by (simp add: rank1_Suc)
  ultimately have k1: "0 < k" by simp
  have "k \<le> rank1 (m_din tfm) ?m" unfolding k_def using j by (intro rank1_mono) simp
  moreover have "rank1 (m_din tfm) (Suc ?m) = rank1 (m_din tfm) ?m + 1"
    using last len by (simp add: rank1_Suc)
  moreover have "rank1 (m_din tfm) (Suc ?m) = popcount (m_din tfm)"
    using len by (simp add: rank1_all)
  ultimately have klt: "k < popcount (m_din tfm)" by simp
  from select1_exists [OF k1, of "m_din tfm"] klt obtain s where s: "select1 (m_din tfm) k = Some s"
    by auto
  have "s \<le> j" using select1_rank1_le [of "m_din tfm" j s] s j len by (simp add: k_def)
  with s show "\<exists>s. select1 (m_din tfm) k = Some s \<and> s \<le> j" by blast
  from select1_exists [OF k1, of "m_dout tfm"] klt pc obtain p where p: "select1 (m_dout tfm) k = Some p"
    by auto
  from select1_Some [OF p] have pl: "p < ?m + 1" "rank1 (m_dout tfm) p + 1 = k" using len by simp_all
  have "p \<noteq> ?m"
  proof
    assume "p = ?m"
    then have "rank1 (m_dout tfm) ?m + 1 = k" using pl by simp
    moreover have "rank1 (m_dout tfm) (Suc ?m) = rank1 (m_dout tfm) ?m + 1"
      using last len by (simp add: rank1_Suc)
    moreover have "rank1 (m_dout tfm) (Suc ?m) = popcount (m_dout tfm)"
      using len by (simp add: rank1_all)
    ultimately show False using klt pc by simp
  qed
  with pl p show "\<exists>p. select1 (m_dout tfm) k = Some p \<and> p < ?m" by auto
qed

lemma add64_nowrap: "a + b < 2 ^ 64 \<Longrightarrow> add64 a b = a + b"
  unfolding add64_def by (simp add: nat_add_distrib flip: of_nat_add)

lemma sub64_nowrap: "b \<le> a \<Longrightarrow> a < 2 ^ 64 \<Longrightarrow> sub64 a b = a - b"
  unfolding sub64_def by (simp add: nat_diff_distrib flip: of_nat_diff)

lemma add64_mod: "add64 a b = (a + b) mod 2 ^ 64"
  unfolding add64_def by (simp add: nat_mod_distrib flip: of_nat_add)

lemma backwardstep_well_formed:
  assumes wf: "well_formed tfm" and i: "fst pos < length (m_L tfm)"
    and m64: "length (m_L tfm) < 2 ^ 64"
  shows "backwardstep tfm pos
           = Inr (case backwardstep_spec tfm pos of (c, (i, o1)) \<Rightarrow> (c, (i mod 2 ^ 64, o1)))"
    and "snd pos < length (m_L tfm) \<Longrightarrow> length (m_L tfm) \<le> 2 ^ 63
           \<Longrightarrow> backwardstep tfm pos = Inr (backwardstep_spec tfm pos)"
proof -
  let ?m = "length (m_L tfm)"
  define c where "c = m_L tfm ! fst pos"
  define j where "j = m_C tfm ! c + rank_c (m_L tfm) c (fst pos)"
  define k where "k = rank1 (m_din tfm) (j + 1)"
  note st = well_formed_step [OF wf i c_def j_def k_def]
  from st(3) obtain s where s: "select1 (m_din tfm) k = Some s" "s \<le> j" by blast
  from st(4) obtain p where p: "select1 (m_dout tfm) k = Some p" "p < ?m" by blast
  define o' where "o' = (if \<not> m_din tfm ! j then j - s else snd pos)"
  from wf have len: "length (m_din tfm) = ?m + 1" "length (m_dout tfm) = ?m + 1"
    and rdy: "sup_ready (m_din_rank tfm) = Some (m_din tfm)"
      "sup_ready (m_din_select tfm) = Some (m_din tfm)"
      "sup_ready (m_dout_select tfm) = Some (m_dout tfm)"
    by (simp_all add: well_formed_def)
  have j64: "j < 2 ^ 64" "j + 1 < 2 ^ 64" and p64: "p < 2 ^ 64" "p + 1 < 2 ^ 64"
    using st(2) p(2) m64 by simp_all
  have w1: "add64 (m_C tfm ! c) (rank_c (m_L tfm) c (fst pos)) = j"
    unfolding j_def using j64(1) by (intro add64_nowrap) (simp add: j_def)
  have w2: "add64 j 1 = j + 1" using j64(2) by (rule add64_nowrap)
  have w3: "sub64 j s = j - s" using s(2) j64(1) by (rule sub64_nowrap)
  have w4: "add64 p 1 = p + 1" using p64(2) by (rule add64_nowrap)
  have 1: "inverse_select (m_L tfm) (fst pos) = Inr (rank_c (m_L tfm) c (fst pos), c)"
    using i by (simp add: inverse_select_def c_def)
  have 2: "vec_at (m_C tfm) c = Inr (m_C tfm ! c)" using st(1) by (simp add: vec_at_def)
  have 3: "rank_query (m_din_rank tfm) (j + 1) = Inr k"
    using rdy(1) st(2) len by (simp add: rank_query_ready k_def)
  have 4: "vec_at (m_din tfm) j = Inr (m_din tfm ! j)" using st(2) len by (simp add: vec_at_def)
  have 5: "select_query (m_din_select tfm) k = Inr s" using rdy(2) s(1) by (rule select_query_ready)
  have 6: "select_query (m_dout_select tfm) k = Inr p" using rdy(3) p(1) by (rule select_query_ready)
  have 7: "vec_at (m_dout tfm) (p + 1) = Inr (m_dout tfm ! (p + 1))"
    using p(2) len by (simp add: vec_at_def)
  have 8: "(if (m_din tfm ! j) = False
            then ebind (select_query (m_din_select tfm) k) (\<lambda>s. Inr (sub64 j s))
            else Inr (snd pos)) = Inr o'"
    by (simp add: 5 w3 o'_def)
  have run: "backwardstep tfm pos =
          (if \<not> m_dout tfm ! (p + 1)
           then Inr (c, ((p + o') mod 2 ^ 64, 0))
           else Inr (c, (p, o')))"
    unfolding backwardstep_def Let_def 1 ebind_Inr snd_conv fst_conv 2 w1 w2 3 4 8 6 w4 7
    by (simp add: add64_mod)
  have spec: "backwardstep_spec tfm pos =
          (if \<not> m_dout tfm ! (p + 1) then (c, (p + o', 0)) else (c, (p, o')))"
    unfolding backwardstep_spec_def Let_def c_def [symmetric] j_def [symmetric] k_def [symmetric]
    by (simp add: s(1) p(1) o'_def)
  show "backwardstep tfm pos
           = Inr (case backwardstep_spec tfm pos of (c, (i, o1)) \<Rightarrow> (c, (i mod 2 ^ 64, o1)))"
    unfolding run spec using p64(1) by simp
  assume o: "snd pos < ?m" and m63: "?m \<le> 2 ^ 63"
  have "o' < ?m" using o st(2) by (auto simp: o'_def)
  then have "p + o' < 2 ^ 63 + 2 ^ 63" using p(2) m63 by linarith
  then have "(p + o') mod 2 ^ 64 = p + o'" by simp
  then show "backwardstep tfm pos = Inr (backwardstep_spec tfm pos)"
    unfolding run spec by simp
qed

text \<open>
  Claim C2. On a well-formed index and a position \<open>(i, o)\<close> of the position type of the
  specification (row \<open>i\<close> and offset \<open>o\<close> both below the number \<open>m\<close> of rows), where
  \<open>m\<close> is at most \<open>2\<^sup>6\<^sup>3\<close>, the backward step of the source succeeds and does exactly the
  steps of the specification: with \<open>(r, c) = inverse_select_L(i)\<close> it sets \<open>i\<close> to
  \<open>C[c] + r\<close>, takes \<open>k = din_rank_1(i + 1)\<close>, sets \<open>o\<close> to \<open>i - din_select_1(k)\<close> when
  \<open>din[i] = 0\<close> and leaves it otherwise, sets \<open>i\<close> to \<open>dout_select_1(k)\<close>, and when
  \<open>dout[i + 1] = 0\<close> adds \<open>o\<close> to \<open>i\<close> and clears \<open>o\<close>; it returns \<open>c\<close>. For every
  other offset, and every well-formed index of fewer than \<open>2\<^sup>6\<^sup>4\<close> rows, the step does
  the same with the sum \<open>i + o\<close> taken in the 64-bit type.
\<close>

theorem backwardstep_steps:
  "(well_formed tfm \<and> length (m_L tfm) \<le> 2 ^ 63
      \<and> fst pos < length (m_L tfm) \<and> snd pos < length (m_L tfm)
      \<longrightarrow> backwardstep tfm pos = Inr (backwardstep_spec tfm pos))
   \<and> (well_formed tfm \<and> length (m_L tfm) < 2 ^ 64 \<and> fst pos < length (m_L tfm)
      \<longrightarrow> backwardstep tfm pos
            = Inr (case backwardstep_spec tfm pos of (c, (i, o1)) \<Rightarrow> (c, (i mod 2 ^ 64, o1))))"
proof (intro conjI impI)
  assume a: "well_formed tfm \<and> length (m_L tfm) \<le> 2 ^ 63
      \<and> fst pos < length (m_L tfm) \<and> snd pos < length (m_L tfm)"
  then have "length (m_L tfm) < (2 :: nat) ^ 64"
    by (simp add: order.strict_trans1 [of "length (m_L tfm)" "2 ^ 63" "2 ^ 64"])
  with a show "backwardstep tfm pos = Inr (backwardstep_spec tfm pos)"
    using backwardstep_well_formed(2) by blast
next
  assume "well_formed tfm \<and> length (m_L tfm) < 2 ^ 64 \<and> fst pos < length (m_L tfm)"
  then show "backwardstep tfm pos
            = Inr (case backwardstep_spec tfm pos of (c, (i, o1)) \<Rightarrow> (c, (i mod 2 ^ 64, o1)))"
    using backwardstep_well_formed(1) by blast
qed

lemma well_formed_abab: "well_formed tfm_abab"
  by code_simp

lemma supports_attached_abab: "supports_attached tfm_abab"
  by code_simp

theorem backwardstep_steps_witness:
  "well_formed tfm_abab \<and> length (m_L tfm_abab) = 4
   \<and> backwardstep tfm_abab (1, 0) = Inr (2, (3, 1))
   \<and> backwardstep tfm_abab (3, 1) = Inr (1, (2, 0))
   \<and> backwardstep_spec tfm_abab (3, 2 ^ 64 - 1) = (1, (2 ^ 64, 0))
   \<and> backwardstep tfm_abab (3, 2 ^ 64 - 1) = Inr (1, (0, 0))"
proof -
  have m: "length (m_L tfm_abab) = 4" by (simp add: tfm_abab_def)
  have l: "length (m_L tfm_abab) \<le> 2 ^ 63" "length (m_L tfm_abab) < 2 ^ 64"
    "fst (1 :: nat, 0 :: nat) < length (m_L tfm_abab)" "snd (1 :: nat, 0 :: nat) < length (m_L tfm_abab)"
    "fst (3 :: nat, 1 :: nat) < length (m_L tfm_abab)" "snd (3 :: nat, 1 :: nat) < length (m_L tfm_abab)"
    "fst (3 :: nat, 2 ^ 64 - 1 :: nat) < length (m_L tfm_abab)"
    unfolding m by simp_all
  have s: "backwardstep_spec tfm_abab (1, 0) = (2, (3, 1))"
     "backwardstep_spec tfm_abab (3, 1) = (1, (2, 0))"
    by code_simp+
  have t: "backwardstep_spec tfm_abab (3, 2 ^ 64 - 1) = (1, (2 ^ 64, 0))"
    by (simp add: backwardstep_spec_def tfm_abab_def rank_c_def rank1_def Let_def)
  have a: "backwardstep tfm_abab (1, 0) = Inr (backwardstep_spec tfm_abab (1, 0))"
    using backwardstep_steps [of tfm_abab "(1, 0)"] well_formed_abab l(1,3,4) by blast
  have b: "backwardstep tfm_abab (3, 1) = Inr (backwardstep_spec tfm_abab (3, 1))"
    using backwardstep_steps [of tfm_abab "(3, 1)"] well_formed_abab l(1,5,6) by blast
  have c: "backwardstep tfm_abab (3, 2 ^ 64 - 1)
             = Inr (case backwardstep_spec tfm_abab (3, 2 ^ 64 - 1) of
                      (c, (i, o1)) \<Rightarrow> (c, (i mod 2 ^ 64, o1)))"
    using backwardstep_steps [of tfm_abab "(3, 2 ^ 64 - 1)"] well_formed_abab l(2,7) by blast
  have c': "backwardstep tfm_abab (3, 2 ^ 64 - 1) = Inr (1, (0, 0))"
    unfolding c t by simp
  from a b c' s t m well_formed_abab show ?thesis by simp
qed
section \<open>Readers do not change the index\<close>

lemma backwardsteps_Suc_Inr:
  "backwardstep tfm pos = Inr (c, pos') \<Longrightarrow> backwardsteps tfm n pos' = Inr (cs, pos'')
     \<Longrightarrow> backwardsteps tfm (Suc n) pos = Inr (c # cs, pos'')"
  by simp

lemma seen_by_Cons:
  "seen_by k ((j, c) # out) = (if j = k then c # seen_by k out else seen_by k out)"
  by (simp add: seen_by_def)

lemma reader_step_Inr:
  assumes "reader_step k (tfm, ps) = Inr (c, s')"
  shows "\<exists>pos'. k < length ps \<and> backwardstep tfm (ps ! k) = Inr (c, pos') \<and> s' = (tfm, ps[k := pos'])"
proof -
  from assms have k: "k < length ps"
    by (cases "k < length ps") (simp_all add: reader_step_def vec_at_def)
  from assms k obtain r where r: "backwardstep tfm (ps ! k) = Inr r"
    by (cases "backwardstep tfm (ps ! k)")
       (simp_all add: reader_step_def vec_at_def call_backwardstep_def)
  obtain c' pos' where cp: "r = (c', pos')" by (cases r)
  from assms k r cp have "c' = c" "s' = (tfm, ps[k := pos'])"
    by (simp_all add: reader_step_def vec_at_def call_backwardstep_def)
  with k r cp show ?thesis by blast
qed

lemma run_schedule_independent:
  "run_schedule sched (tfm, ps) = Inr (out, tfm', ps') \<Longrightarrow>
     tfm' = tfm \<and> length ps' = length ps \<and>
     (\<forall>k < length ps. backwardsteps tfm (count_list sched k) (ps ! k) = Inr (seen_by k out, ps' ! k))"
proof (induction sched arbitrary: ps out)
  case Nil
  then show ?case by (simp add: seen_by_def)
next
  case (Cons j ks)
  from Cons.prems obtain c s1 where st: "reader_step j (tfm, ps) = Inr (c, s1)"
    by (cases "reader_step j (tfm, ps)") auto
  from reader_step_Inr [OF st] obtain pos' where
    j: "j < length ps" and bs: "backwardstep tfm (ps ! j) = Inr (c, pos')"
    and s1: "s1 = (tfm, ps[j := pos'])" by blast
  from Cons.prems st s1 obtain out1 where
    rest: "run_schedule ks (tfm, ps[j := pos']) = Inr (out1, tfm', ps')" and out: "out = (j, c) # out1"
    by (cases "run_schedule ks (tfm, ps[j := pos'])") auto
  from Cons.IH [OF rest] have IH: "tfm' = tfm" "length ps' = length ps"
    "\<forall>k < length ps. backwardsteps tfm (count_list ks k) (ps[j := pos'] ! k)
        = Inr (seen_by k out1, ps' ! k)"
    by simp_all
  have "backwardsteps tfm (count_list (j # ks) k) (ps ! k) = Inr (seen_by k out, ps' ! k)"
    if k: "k < length ps" for k
  proof (cases "k = j")
    case True
    have "backwardsteps tfm (count_list ks j) pos' = Inr (seen_by j out1, ps' ! j)"
      using IH(3) j by auto
    from backwardsteps_Suc_Inr [OF bs this] show ?thesis
      using True out by (simp add: seen_by_Cons)
  next
    case False
    have "backwardsteps tfm (count_list ks k) (ps[j := pos'] ! k) = Inr (seen_by k out1, ps' ! k)"
      using IH(3) k by blast
    then show ?thesis using False out by (simp add: seen_by_Cons)
  qed
  with IH(1,2) show ?case by blast
qed

text \<open>
  Claim C8. \<open>end\<close>, \<open>preceding_char\<close> and \<open>backwardstep\<close> return the index they were
  called on unchanged, in every field; only the caller's position pair changes. When
  several readers, each with its own position pair, take their backward steps on one
  index in any order, the index stays the same throughout, and each reader ends at the
  position and has seen the characters it would have reached and seen alone.
\<close>

theorem readers_leave_index_unchanged:
  "snd (call_end tfm) = tfm
   \<and> (\<forall>c tfm' pos'. call_preceding_char (tfm, pos) = Inr (c, tfm', pos') \<longrightarrow> tfm' = tfm \<and> pos' = pos)
   \<and> (\<forall>c tfm' pos'. call_backwardstep (tfm, pos) = Inr (c, tfm', pos') \<longrightarrow> tfm' = tfm)
   \<and> (\<forall>out tfm' ps'. run_schedule sched (tfm, ps) = Inr (out, tfm', ps') \<longrightarrow>
         tfm' = tfm \<and> length ps' = length ps \<and>
         (\<forall>k < length ps.
            backwardsteps tfm (count_list sched k) (ps ! k) = Inr (seen_by k out, ps' ! k)))"
proof (intro conjI allI impI)
  show "snd (call_end tfm) = tfm" by (simp add: call_end_def)
next
  fix c tfm' pos'
  assume "call_preceding_char (tfm, pos) = Inr (c, tfm', pos')"
  then show "tfm' = tfm" "pos' = pos"
    by (auto simp: call_preceding_char_def ebind_eq_Inr)
next
  fix c tfm' pos'
  assume "call_backwardstep (tfm, pos) = Inr (c, tfm', pos')"
  then show "tfm' = tfm"
    by (auto simp: call_backwardstep_def ebind_eq_Inr)
next
  fix out tfm' ps'
  assume r: "run_schedule sched (tfm, ps) = Inr (out, tfm', ps')"
  from run_schedule_independent [OF r]
  show "tfm' = tfm" "length ps' = length ps" by simp_all
  fix k assume "k < length ps"
  with run_schedule_independent [OF r]
  show "backwardsteps tfm (count_list sched k) (ps ! k) = Inr (seen_by k out, ps' ! k)" by simp
qed


theorem readers_leave_index_unchanged_witness:
  "run_schedule [0, 1, 1, 0, 0] (tfm_abab, [(0, 0), (3, 0)])
     = Inr ([(0, 2), (1, 1), (1, 2), (0, 1), (0, 2)], tfm_abab, [(3, 1), (3, 1)])
   \<and> backwardsteps tfm_abab (count_list [0, 1, 1, 0, 0] (1 :: nat)) ([(0, 0), (3, 0)] ! 1)
       = Inr (seen_by 1 [(0, 2), (1, 1), (1, 2), (0, 1), (0, 2)], [(3, 1), (3, 1)] ! 1)"
proof -
  have run: "run_schedule [0, 1, 1, 0, 0] (tfm_abab, [(0, 0), (3, 0)])
     = Inr ([(0, 2), (1, 1), (1, 2), (0, 1), (0, 2)], tfm_abab, [(3, 1), (3, 1)])"
    by code_simp
  from readers_leave_index_unchanged [of tfm_abab "(0, 0)" "[0, 1, 1, 0, 0]" "[(0, 0), (3, 0)]"] run
  have all: "\<forall>k < length [(0 :: nat, 0 :: nat), (3, 0)].
            backwardsteps tfm_abab (count_list [0, 1, 1, 0, 0] k) ([(0, 0), (3, 0)] ! k)
              = Inr (seen_by k [(0, 2), (1, 1), (1, 2), (0, 1), (0, 2)], [(3, 1), (3, 1)] ! k)"
    by blast
  have "1 < length [(0 :: nat, 0 :: nat), (3, 0)]" by simp
  from all [rule_format, OF this] show ?thesis by (rule conjI [OF run])
qed


section \<open>Serialization round trip\<close>

lemma write_members_eq:
  "write_members bytes xs (out, n) = (out @ xs, n + sum_list (map bytes xs))"
  by (induction xs arbitrary: out n) simp_all

lemma serialize_eq:
  "serialize bytes tfm out = (out @ serialize_items tfm, sum_list (map bytes (serialize_items tfm)))"
  by (simp add: serialize_def write_members_eq)

lemma load_serialized:
  "load tfm0 (serialize_items tfm @ rest) =
     Inr (\<lparr>text_len = text_len tfm, m_L = m_L tfm, m_C = m_C tfm,
           m_dout = m_dout tfm,
           m_dout_rank = \<lparr>sup_tables = sup_tables (m_dout_rank tfm), sup_v = Some (m_dout tfm)\<rparr>,
           m_dout_select = \<lparr>sup_tables = sup_tables (m_dout_select tfm), sup_v = Some (m_dout tfm)\<rparr>,
           m_din = m_din tfm,
           m_din_rank = \<lparr>sup_tables = sup_tables (m_din_rank tfm), sup_v = Some (m_din tfm)\<rparr>,
           m_din_select = \<lparr>sup_tables = sup_tables (m_din_select tfm), sup_v = Some (m_din tfm)\<rparr>\<rparr>,
          rest)"
  by (simp add: load_def serialize_items_def read_member_def load_wt_def load_vec_def load_bv_def
        load_rank_def load_select_def Let_def)

lemma attached_rebind:
  "attached s bv \<Longrightarrow> sup_ready \<lparr>sup_tables = sup_tables s, sup_v = Some bv\<rparr> = sup_ready s"
  by (cases s) (auto simp: attached_def no_support_def sup_ready_def split: option.splits)

lemma backwardstep_cong:
  assumes "m_L a = m_L b" "m_C a = m_C b" "m_din a = m_din b" "m_dout a = m_dout b"
    and "sup_ready (m_din_rank a) = sup_ready (m_din_rank b)"
    and "sup_ready (m_din_select a) = sup_ready (m_din_select b)"
    and "sup_ready (m_dout_select a) = sup_ready (m_dout_select b)"
  shows "backwardstep a pos = backwardstep b pos"
  unfolding backwardstep_def rank_query_def select_query_def assms ..

lemma backwardsteps_cong:
  assumes "\<And>pos. backwardstep a pos = backwardstep b pos"
  shows "backwardsteps a n pos = backwardsteps b n pos"
proof (induction n arbitrary: pos)
  case 0
  show ?case by simp
next
  case (Suc n)
  show ?case by (simp add: assms Suc)
qed

text \<open>
  Claim C7. \<open>serialize\<close> appends the members in the order \<open>text_len\<close>, wavelet tree
  \<open>L\<close>, vector \<open>C\<close>, \<open>dout\<close>, its rank support, its select support, \<open>din\<close>, its rank
  support, its select support. \<open>load\<close> reads them back in this order, leaves the rest of
  the stream, and sets the pointer of each support to the bitvector just loaded. The
  loaded index has the same \<open>size()\<close>; and for every index whose supports are
  default-constructed or attached to its own bitvectors (the only states the source
  produces), every backward step, hence every sequence of backward steps from \<open>end()\<close>,
  gives the same result on the loaded index as on the original.
\<close>

theorem serialize_load_roundtrip:
  "fst (serialize bytes tfm out) =
      out @ [Item_size (text_len tfm), Item_wt (m_L tfm), Item_vec (m_C tfm),
             Item_bv (m_dout tfm), Item_rank (sup_tables (m_dout_rank tfm)),
             Item_select (sup_tables (m_dout_select tfm)),
             Item_bv (m_din tfm), Item_rank (sup_tables (m_din_rank tfm)),
             Item_select (sup_tables (m_din_select tfm))]
   \<and> (\<exists>tfm'. load tfm0 (fst (serialize bytes tfm []) @ rest) = Inr (tfm', rest)
        \<and> text_len tfm' = text_len tfm \<and> m_L tfm' = m_L tfm \<and> m_C tfm' = m_C tfm
        \<and> m_dout tfm' = m_dout tfm \<and> m_din tfm' = m_din tfm
        \<and> sup_v (m_dout_rank tfm') = Some (m_dout tfm')
        \<and> sup_v (m_dout_select tfm') = Some (m_dout tfm')
        \<and> sup_v (m_din_rank tfm') = Some (m_din tfm')
        \<and> sup_v (m_din_select tfm') = Some (m_din tfm')
        \<and> tfm_size tfm' = tfm_size tfm
        \<and> (supports_attached tfm \<longrightarrow>
             (\<forall>pos. backwardstep tfm' pos = backwardstep tfm pos)
             \<and> (\<forall>n. backwardsteps tfm' n (tfm_end tfm') = backwardsteps tfm n (tfm_end tfm))))"
proof
  show "fst (serialize bytes tfm out) =
      out @ [Item_size (text_len tfm), Item_wt (m_L tfm), Item_vec (m_C tfm),
             Item_bv (m_dout tfm), Item_rank (sup_tables (m_dout_rank tfm)),
             Item_select (sup_tables (m_dout_select tfm)),
             Item_bv (m_din tfm), Item_rank (sup_tables (m_din_rank tfm)),
             Item_select (sup_tables (m_din_select tfm))]"
    by (simp add: serialize_eq serialize_items_def)
next
  define tfm' where "tfm' =
         \<lparr>text_len = text_len tfm, m_L = m_L tfm, m_C = m_C tfm,
           m_dout = m_dout tfm,
           m_dout_rank = \<lparr>sup_tables = sup_tables (m_dout_rank tfm), sup_v = Some (m_dout tfm)\<rparr>,
           m_dout_select = \<lparr>sup_tables = sup_tables (m_dout_select tfm), sup_v = Some (m_dout tfm)\<rparr>,
           m_din = m_din tfm,
           m_din_rank = \<lparr>sup_tables = sup_tables (m_din_rank tfm), sup_v = Some (m_din tfm)\<rparr>,
           m_din_select = \<lparr>sup_tables = sup_tables (m_din_select tfm), sup_v = Some (m_din tfm)\<rparr>\<rparr>"
  have ld: "load tfm0 (fst (serialize bytes tfm []) @ rest) = Inr (tfm', rest)"
    unfolding tfm'_def by (simp add: serialize_eq load_serialized)
  have data: "text_len tfm' = text_len tfm" "m_L tfm' = m_L tfm" "m_C tfm' = m_C tfm"
    "m_dout tfm' = m_dout tfm" "m_din tfm' = m_din tfm" "tfm_size tfm' = tfm_size tfm"
    by (simp_all add: tfm'_def tfm_size_def)
  have ptr: "sup_v (m_dout_rank tfm') = Some (m_dout tfm')"
    "sup_v (m_dout_select tfm') = Some (m_dout tfm')"
    "sup_v (m_din_rank tfm') = Some (m_din tfm')"
    "sup_v (m_din_select tfm') = Some (m_din tfm')"
    by (simp_all add: tfm'_def)
  have beh: "(\<forall>pos. backwardstep tfm' pos = backwardstep tfm pos)
             \<and> (\<forall>n. backwardsteps tfm' n (tfm_end tfm') = backwardsteps tfm n (tfm_end tfm))"
    if att: "supports_attached tfm"
  proof -
    have rd: "sup_ready (m_din_rank tfm') = sup_ready (m_din_rank tfm)"
      "sup_ready (m_din_select tfm') = sup_ready (m_din_select tfm)"
      "sup_ready (m_dout_select tfm') = sup_ready (m_dout_select tfm)"
      using att by (simp_all add: tfm'_def supports_attached_def attached_rebind)
    have step: "backwardstep tfm' pos = backwardstep tfm pos" for pos
      by (rule backwardstep_cong) (simp_all add: data rd)
    then show ?thesis using backwardsteps_cong [of tfm' tfm] by (simp add: tfm_end_def)
  qed
  show "\<exists>tfm'. load tfm0 (fst (serialize bytes tfm []) @ rest) = Inr (tfm', rest)
        \<and> text_len tfm' = text_len tfm \<and> m_L tfm' = m_L tfm \<and> m_C tfm' = m_C tfm
        \<and> m_dout tfm' = m_dout tfm \<and> m_din tfm' = m_din tfm
        \<and> sup_v (m_dout_rank tfm') = Some (m_dout tfm')
        \<and> sup_v (m_dout_select tfm') = Some (m_dout tfm')
        \<and> sup_v (m_din_rank tfm') = Some (m_din tfm')
        \<and> sup_v (m_din_select tfm') = Some (m_din tfm')
        \<and> tfm_size tfm' = tfm_size tfm
        \<and> (supports_attached tfm \<longrightarrow>
             (\<forall>pos. backwardstep tfm' pos = backwardstep tfm pos)
             \<and> (\<forall>n. backwardsteps tfm' n (tfm_end tfm') = backwardsteps tfm n (tfm_end tfm)))"
    using ld data ptr beh by blast
qed

theorem serialize_load_roundtrip_witness:
  "supports_attached tfm_abab
   \<and> (\<exists>tfm'. load empty_index (fst (serialize (\<lambda>x. 8) tfm_abab []) @ []) = Inr (tfm', [])
         \<and> tfm_size tfm' = 5
         \<and> backwardsteps tfm' 5 (tfm_end tfm') = Inr ([2, 1, 2, 1, 0], (0, 0)))"
proof -
  from serialize_load_roundtrip [of "\<lambda>x. 8" tfm_abab "[]" empty_index "[]"] supports_attached_abab
  obtain tfm' where t: "load empty_index (fst (serialize (\<lambda>x. 8) tfm_abab []) @ []) = Inr (tfm', [])"
     "tfm_size tfm' = tfm_size tfm_abab"
     "\<forall>n. backwardsteps tfm' n (tfm_end tfm') = backwardsteps tfm_abab n (tfm_end tfm_abab)"
    by blast
  have "tfm_size tfm_abab = 5" by (simp add: tfm_size_def tfm_abab_def)
  moreover have "backwardsteps tfm_abab 5 (tfm_end tfm_abab) = Inr ([2, 1, 2, 1, 0], (0, 0))"
    by code_simp
  ultimately show ?thesis using t supports_attached_abab by auto
qed


section \<open>The compactor\<close>

lemma kept_Suc: "kept bv (Suc i) = kept bv i @ (if bv ! i then [i] else [])"
  by (simp add: kept_def)

lemma length_kept_le: "length (kept bv i) \<le> i"
  using length_filter_le [of "\<lambda>t. bv ! t" "[0..<i]"] by (simp add: kept_def)

lemma length_kept_popcount: "i \<le> length bv \<Longrightarrow> length (kept bv i) = popcount (take i bv)"
proof (induction i)
  case 0
  show ?case by (simp add: kept_def popcount_def)
next
  case (Suc i)
  then show ?case by (simp add: kept_Suc popcount_def take_Suc_conv_app_nth)
qed

lemma drop_eq_nth:
  assumes "drop i xs = drop i ys" "length xs = length ys" "i < length ys"
  shows "xs ! i = ys ! i" "drop (Suc i) xs = drop (Suc i) ys"
proof -
  have "xs ! i # drop (Suc i) xs = ys ! i # drop (Suc i) ys"
    using assms by (simp add: Cons_nth_drop_Suc)
  then show "xs ! i = ys ! i" "drop (Suc i) xs = drop (Suc i) ys" by simp_all
qed

lemma take_Suc_update:
  "p < length xs \<Longrightarrow> take (Suc p) (xs[p := v]) = take p xs @ [v]"
  by (simp add: take_Suc_conv_app_nth)

lemma compact_step:
  assumes inv: "compact_inv wt_L dout din i s" and i: "i < length wt_L"
    and ld: "length wt_L \<le> length dout" and li: "length wt_L \<le> length din"
  shows "\<exists>s1. compact_loop wt_L i s = compact_loop wt_L (i + 1) s1
              \<and> compact_inv wt_L dout din (i + 1) s1"
proof -
  have len: "length (c_dout s) = length dout" "length (c_din s) = length din"
    and p: "c_p s = length (kept din i)" and q: "c_q s = length (kept dout i)"
    and tp: "take (c_p s) (c_dout s) = map (\<lambda>t. dout ! t) (kept din i)"
    and tq: "take (c_q s) (c_din s) = map (\<lambda>t. din ! t) (kept dout i)"
    and dd: "drop i (c_dout s) = drop i dout" and di: "drop i (c_din s) = drop i din"
    and L: "c_L_buf s = map (\<lambda>t. wt_L ! t) (kept din i)"
    using inv unfolding compact_inv_def by blast+
  have ple: "c_p s \<le> i" "c_q s \<le> i" using p q length_kept_le by simp_all
  have id: "i < length dout" "i < length din" using i ld li by simp_all
  have ni: "c_din s ! i = din ! i" "drop (Suc i) (c_din s) = drop (Suc i) din"
    using drop_eq_nth [OF di len(2) id(2)] by simp_all
  have no: "c_dout s ! i = dout ! i" "drop (Suc i) (c_dout s) = drop (Suc i) dout"
    using drop_eq_nth [OF dd len(1) id(1)] by simp_all
  define sa where "sa = (if din ! i
       then s\<lparr>c_L_buf := c_L_buf s @ [wt_L ! i],
               c_dout := (c_dout s)[c_p s := dout ! i], c_p := c_p s + 1\<rparr>
       else s)"
  define sb where "sb = (if dout ! i
       then sa\<lparr>c_din := (c_din sa)[c_q sa := din ! i], c_q := c_q sa + 1\<rparr>
       else sa)"
  have 1: "vec_at (c_din s) i = Inr (din ! i)" using id len ni by (simp add: vec_at_def)
  have 2: "(if (din ! i) = True
               then ebind (vec_at wt_L i) (\<lambda>c.
                    ebind (vec_at (c_dout s) i) (\<lambda>d.
                    ebind (vec_set (c_dout s) (c_p s) d) (\<lambda>dout'.
                    Inr (s\<lparr>c_L_buf := c_L_buf s @ [c], c_dout := dout', c_p := c_p s + 1\<rparr>))))
               else Inr s) = Inr sa"
    using i id len no ple by (simp add: sa_def vec_at_def vec_set_def)
  have sa_din: "c_din sa = c_din s" "c_q sa = c_q s" by (simp_all add: sa_def)
  have sa_dout_i: "c_dout sa ! i = dout ! i" "length (c_dout sa) = length dout"
    using no len id ple by (auto simp: sa_def nth_list_update)
  have 3: "vec_at (c_dout sa) i = Inr (dout ! i)" using sa_dout_i id by (simp add: vec_at_def)
  have 4: "(if (dout ! i) = True
               then ebind (vec_at (c_din sa) i) (\<lambda>d.
                    ebind (vec_set (c_din sa) (c_q sa) d) (\<lambda>din'.
                    Inr (sa\<lparr>c_din := din', c_q := c_q sa + 1\<rparr>)))
               else Inr sa) = Inr sb"
    using id len ni ple sa_din by (simp add: sb_def vec_at_def vec_set_def)
  have step: "compact_loop wt_L i s = compact_loop wt_L (i + 1) sb"
    by (subst compact_loop.simps) (simp only: i if_True 1 ebind_Inr 2 3 4)
  have "compact_inv wt_L dout din (i + 1) sb"
  proof -
    have a: "length (c_dout sb) = length dout" "length (c_din sb) = length din"
      using len by (simp_all add: sb_def sa_def)
    have b: "c_p sb = length (kept din (Suc i))" "c_L_buf sb = map (\<lambda>t. wt_L ! t) (kept din (Suc i))"
      "take (c_p sb) (c_dout sb) = map (\<lambda>t. dout ! t) (kept din (Suc i))"
      using p L tp ple id len by (simp_all add: sb_def sa_def kept_Suc take_Suc_update)
    have c: "c_q sb = length (kept dout (Suc i))"
      "take (c_q sb) (c_din sb) = map (\<lambda>t. din ! t) (kept dout (Suc i))"
      using q tq ple id len by (simp_all add: sb_def sa_def kept_Suc take_Suc_update)
    have d: "drop (Suc i) (c_dout sb) = drop (Suc i) dout" "drop (Suc i) (c_din sb) = drop (Suc i) din"
      using no(2) ni(2) ple by (simp_all add: sb_def sa_def)
    show ?thesis using a b c d by (simp add: compact_inv_def)
  qed
  with step show ?thesis by blast
qed

lemma compact_loop_inv:
  assumes "compact_inv wt_L dout din i s" "i \<le> length wt_L"
    and "length wt_L \<le> length dout" "length wt_L \<le> length din"
  shows "\<exists>s'. compact_loop wt_L i s = Inr s' \<and> compact_inv wt_L dout din (length wt_L) s'"
  using assms
proof (induction "length wt_L - i" arbitrary: i s)
  case 0
  then have "i = length wt_L" by simp
  then show ?case using "0.prems"(1) by (subst compact_loop.simps) simp
next
  case (Suc n)
  then have i: "i < length wt_L" by simp
  from compact_step [OF Suc.prems(1) i Suc.prems(3,4)] obtain s1 where
    s1: "compact_loop wt_L i s = compact_loop wt_L (i + 1) s1" "compact_inv wt_L dout din (i + 1) s1"
    by blast
  have "n = length wt_L - (i + 1)" using Suc.hyps(2) by simp
  from Suc.hyps(1) [OF this s1(2) _ Suc.prems(3,4)] i s1(1) show ?case by simp
qed

lemma compact_inv_init:
  "compact_inv wt_L dout din 0 \<lparr>c_L_buf = [], c_p = 0, c_q = 0, c_dout = dout, c_din = din\<rparr>"
  by (simp add: compact_inv_def kept_def)

lemma popcount_sentinel:
  "length bv = m + 1 \<Longrightarrow> popcount bv = popcount (take m bv) + (if bv ! m then 1 else 0)"
proof -
  assume l: "length bv = m + 1"
  then have "bv = take m bv @ [bv ! m]"
    by (metis Suc_eq_plus1 lessI take_Suc_conv_app_nth take_all order_refl)
  then have "popcount bv = popcount (take m bv @ [bv ! m])" by simp
  then show ?thesis by (simp add: popcount_def)
qed

lemma remove_redundant_entries_eq:
  assumes "length dout = length wt_L + 1" and "length din = length wt_L + 1"
  shows "\<exists>s0. compact_loop wt_L 0 \<lparr>c_L_buf = [], c_p = 0, c_q = 0, c_dout = dout, c_din = din\<rparr> = Inr s0
           \<and> c_p s0 = length (kept din (length wt_L)) \<and> c_q s0 = length (kept dout (length wt_L))
           \<and> remove_redundant_entries wt_L dout din =
               Inr (s0\<lparr>c_dout := map (\<lambda>t. dout ! t) (kept din (length wt_L)) @ [True],
                        c_p := length (kept din (length wt_L)) + 1,
                        c_din := map (\<lambda>t. din ! t) (kept dout (length wt_L)) @ [True],
                        c_q := length (kept dout (length wt_L)) + 1\<rparr>)
           \<and> c_L_buf s0 = map (\<lambda>t. wt_L ! t) (kept din (length wt_L))"
proof -
  let ?m = "length wt_L"
  from compact_loop_inv [OF compact_inv_init, of wt_L dout din] assms obtain s0 where
    run: "compact_loop wt_L 0 \<lparr>c_L_buf = [], c_p = 0, c_q = 0, c_dout = dout, c_din = din\<rparr> = Inr s0"
    and inv: "compact_inv wt_L dout din ?m s0"
    by auto
  have len0: "length (c_dout s0) = length dout" "length (c_din s0) = length din"
    and p: "c_p s0 = length (kept din ?m)" and q: "c_q s0 = length (kept dout ?m)"
    and tp: "take (c_p s0) (c_dout s0) = map (\<lambda>t. dout ! t) (kept din ?m)"
    and tq: "take (c_q s0) (c_din s0) = map (\<lambda>t. din ! t) (kept dout ?m)"
    and L: "c_L_buf s0 = map (\<lambda>t. wt_L ! t) (kept din ?m)"
    using inv unfolding compact_inv_def by blast+
  have len: "length (c_dout s0) = ?m + 1" "length (c_din s0) = ?m + 1"
    using len0 assms by simp_all
  have ple: "c_p s0 \<le> ?m" "c_q s0 \<le> ?m" using p q length_kept_le by simp_all
  have r1: "bv_resize (Suc (c_p s0)) ((c_dout s0)[c_p s0 := True]) = take (c_p s0) (c_dout s0) @ [True]"
    using ple len by (simp add: bv_resize_def take_Suc_update)
  have r2: "bv_resize (Suc (c_q s0)) ((c_din s0)[c_q s0 := True]) = take (c_q s0) (c_din s0) @ [True]"
    using ple len by (simp add: bv_resize_def take_Suc_update)
  have fin: "remove_redundant_entries wt_L dout din =
               Inr (s0\<lparr>c_dout := take (c_p s0) (c_dout s0) @ [True], c_p := c_p s0 + 1,
                        c_din := take (c_q s0) (c_din s0) @ [True], c_q := c_q s0 + 1\<rparr>)"
    unfolding remove_redundant_entries_def run ebind_Inr
    using ple len by (simp add: vec_set_def Let_def r1 r2)
  show ?thesis using run p q L fin unfolding tp tq by simp
qed


text \<open>
  Claim C3, as stated, says that on completion \<open>p = q = m\<close>, the length of the new \<open>L\<close>,
  and that this length is the number of set bits of the original \<open>din\<close>. For the last
  column \<open>a $\<close> of the text \<open>a $\<close> with no tunnel (\<open>dout = din = 111\<close>) the new \<open>L\<close> has
  \<open>m = 2\<close> rows, while \<open>p = q = 3\<close> on completion and the original \<open>din\<close> has 3 set bits.
\<close>

theorem compactor_counterexample:
  "remove_redundant_entries [1, 0] [True, True, True] [True, True, True]
     = Inr \<lparr>c_L_buf = [1, 0], c_p = 3, c_q = 3,
            c_dout = [True, True, True], c_din = [True, True, True]\<rparr>
   \<and> length [1, 0 :: nat] = 2 \<and> popcount [True, True, True] = 3"
  by code_simp

text \<open>
  Claim C3, amended. On a full \<open>L\<close> of length \<open>m\<^sub>0\<close> with \<open>dout\<close> and \<open>din\<close> of
  \<open>m\<^sub>0 + 1\<close> bits the compactor makes one pass with the cursors \<open>p\<close> and \<open>q\<close> from 0: the
  new \<open>L\<close> holds \<open>L[i]\<close>, and the new \<open>dout\<close> holds \<open>dout[i]\<close>, for the rows \<open>i < m\<^sub>0\<close>
  with \<open>din[i] = 1\<close>, in order; the new \<open>din\<close> holds \<open>din[i]\<close> for the rows with
  \<open>dout[i] = 1\<close>; each vector then gets a final 1 and is truncated to its cursor. After
  the pass \<open>p = m\<close>, the length of the new \<open>L\<close>, and \<open>q\<close> is the number of set bits among
  the first \<open>m\<^sub>0\<close> bits of \<open>dout\<close>; on completion \<open>p = m + 1\<close> and \<open>q\<close> is one more than
  that number, and they are the lengths of the new \<open>dout\<close> and \<open>din\<close>; \<open>p = q\<close> exactly
  when \<open>din\<close> and \<open>dout\<close> have equally many set bits among their first \<open>m\<^sub>0\<close>; and \<open>m\<close> is
  the number of set bits among the first \<open>m\<^sub>0\<close> bits of the original \<open>din\<close>, which is
  one less than its number of set bits when the sentinel \<open>din[m\<^sub>0]\<close> is set.
\<close>

theorem compactor_result:
  assumes "length dout = length wt_L + 1" and "length din = length wt_L + 1"
  shows "\<exists>s0 s.
       compact_loop wt_L 0 \<lparr>c_L_buf = [], c_p = 0, c_q = 0, c_dout = dout, c_din = din\<rparr> = Inr s0
     \<and> remove_redundant_entries wt_L dout din = Inr s
     \<and> c_L_buf s = map (\<lambda>t. wt_L ! t) (kept din (length wt_L))
     \<and> c_dout s = map (\<lambda>t. dout ! t) (kept din (length wt_L)) @ [True]
     \<and> c_din s = map (\<lambda>t. din ! t) (kept dout (length wt_L)) @ [True]
     \<and> c_p s0 = length (c_L_buf s) \<and> c_q s0 = popcount (take (length wt_L) dout)
     \<and> c_p s = length (c_L_buf s) + 1 \<and> c_q s = popcount (take (length wt_L) dout) + 1
     \<and> length (c_dout s) = c_p s \<and> length (c_din s) = c_q s
     \<and> length (c_L_buf s) = popcount (take (length wt_L) din)
     \<and> (c_p s = c_q s \<longleftrightarrow> popcount (take (length wt_L) din) = popcount (take (length wt_L) dout))
     \<and> (din ! length wt_L \<longrightarrow> length (c_L_buf s) + 1 = popcount din)"
proof -
  let ?m = "length wt_L"
  from compact_loop_inv [OF compact_inv_init, of wt_L dout din] assms obtain s0 where
    run: "compact_loop wt_L 0 \<lparr>c_L_buf = [], c_p = 0, c_q = 0, c_dout = dout, c_din = din\<rparr> = Inr s0"
    and inv: "compact_inv wt_L dout din ?m s0"
    by auto
  have len0: "length (c_dout s0) = length dout" "length (c_din s0) = length din"
    and p: "c_p s0 = length (kept din ?m)" and q: "c_q s0 = length (kept dout ?m)"
    and tp: "take (c_p s0) (c_dout s0) = map (\<lambda>t. dout ! t) (kept din ?m)"
    and tq: "take (c_q s0) (c_din s0) = map (\<lambda>t. din ! t) (kept dout ?m)"
    and L: "c_L_buf s0 = map (\<lambda>t. wt_L ! t) (kept din ?m)"
    using inv unfolding compact_inv_def by blast+
  have len: "length (c_dout s0) = ?m + 1" "length (c_din s0) = ?m + 1"
    using len0 assms by simp_all
  have ple: "c_p s0 \<le> ?m" "c_q s0 \<le> ?m" using p q length_kept_le by simp_all
  define s where "s = s0\<lparr>c_dout := take (c_p s0) (c_dout s0) @ [True], c_p := c_p s0 + 1,
                          c_din := take (c_q s0) (c_din s0) @ [True], c_q := c_q s0 + 1\<rparr>"
  have r1: "bv_resize (Suc (c_p s0)) ((c_dout s0)[c_p s0 := True]) = take (c_p s0) (c_dout s0) @ [True]"
    using ple len by (simp add: bv_resize_def take_Suc_update)
  have r2: "bv_resize (Suc (c_q s0)) ((c_din s0)[c_q s0 := True]) = take (c_q s0) (c_din s0) @ [True]"
    using ple len by (simp add: bv_resize_def take_Suc_update)
  have fin: "remove_redundant_entries wt_L dout din = Inr s"
    unfolding remove_redundant_entries_def run ebind_Inr
    using ple len by (simp add: vec_set_def Let_def r1 r2 s_def)
  have pc: "length (kept din ?m) = popcount (take ?m din)"
    "length (kept dout ?m) = popcount (take ?m dout)"
    using assms by (simp_all add: length_kept_popcount)
  have f1: "c_L_buf s = map (\<lambda>t. wt_L ! t) (kept din ?m)"
    "c_dout s = map (\<lambda>t. dout ! t) (kept din ?m) @ [True]"
    "c_din s = map (\<lambda>t. din ! t) (kept dout ?m) @ [True]"
    by (simp_all add: s_def L tp tq)
  have f2: "c_p s0 = length (c_L_buf s)" "c_q s0 = popcount (take ?m dout)"
    "c_p s = length (c_L_buf s) + 1" "c_q s = popcount (take ?m dout) + 1"
    "length (c_L_buf s) = popcount (take ?m din)"
    using p q pc by (simp_all add: s_def L)
  have f3: "length (c_dout s) = c_p s" "length (c_din s) = c_q s"
    using f1 f2 pc by simp_all
  have f4: "c_p s = c_q s \<longleftrightarrow> popcount (take ?m din) = popcount (take ?m dout)"
    using f2 by simp
  have f5: "din ! ?m \<longrightarrow> length (c_L_buf s) + 1 = popcount din"
    using popcount_sentinel [OF assms(2)] f2(5) by simp
  show ?thesis using run fin f1 f2 f3 f4 f5 by blast
qed

theorem compactor_result_witness:
  "\<exists>s. remove_redundant_entries [2, 2, 0, 1, 1]
          [True, True, False, True, True, True] [True, True, True, True, False, True] = Inr s
     \<and> c_L_buf s = [2, 2, 0, 1]
     \<and> c_dout s = [True, True, False, True, True]
     \<and> c_din s = [True, True, True, False, True]
     \<and> c_p s = 5 \<and> c_q s = 5"
proof -
  have a: "length [True, True, False, True, True, True] = length [2, 2, 0, 1, 1 :: nat] + 1"
    "length [True, True, True, True, False, True] = length [2, 2, 0, 1, 1 :: nat] + 1"
    by simp_all
  have k: "kept [True, True, True, True, False, True] (length [2, 2, 0, 1, 1 :: nat]) = [0, 1, 2, 3]"
    "kept [True, True, False, True, True, True] (length [2, 2, 0, 1, 1 :: nat]) = [0, 1, 3, 4]"
    "popcount (take (length [2, 2, 0, 1, 1 :: nat]) [True, True, False, True, True, True]) = 4"
    by code_simp+
  from compactor_result [OF a] obtain s where
    "remove_redundant_entries [2, 2, 0, 1, 1]
          [True, True, False, True, True, True] [True, True, True, True, False, True] = Inr s"
    "c_L_buf s = map (\<lambda>t. [2, 2, 0, 1, 1] ! t) (kept [True, True, True, True, False, True] (length [2, 2, 0, 1, 1 :: nat]))"
    "c_dout s = map (\<lambda>t. [True, True, False, True, True, True] ! t)
                  (kept [True, True, True, True, False, True] (length [2, 2, 0, 1, 1 :: nat])) @ [True]"
    "c_din s = map (\<lambda>t. [True, True, True, True, False, True] ! t)
                  (kept [True, True, False, True, True, True] (length [2, 2, 0, 1, 1 :: nat])) @ [True]"
    "c_p s = length (c_L_buf s) + 1"
    "c_q s = popcount (take (length [2, 2, 0, 1, 1 :: nat]) [True, True, False, True, True, True]) + 1"
    by blast
  then have "remove_redundant_entries [2, 2, 0, 1, 1]
          [True, True, False, True, True, True] [True, True, True, True, False, True] = Inr s
     \<and> c_L_buf s = [2, 2, 0, 1]
     \<and> c_dout s = [True, True, False, True, True]
     \<and> c_din s = [True, True, True, False, True]
     \<and> c_p s = 5 \<and> c_q s = 5"
    unfolding k by simp
  then show ?thesis ..
qed


section \<open>The inverter\<close>

lemma untunnel_loop_length:
  "untunnel_loop tfm i p original = Inr r \<Longrightarrow> length r = length original"
proof (induction tfm i p original rule: untunnel_loop.induct)
  case (1 tfm i p original)
  show ?case
  proof (cases "i < tfm_size tfm")
    case False
    with "1.prems" show ?thesis by (subst (asm) untunnel_loop.simps) simp
  next
    case True
    from "1.prems" True obtain st where st: "backwardstep tfm p = Inr st"
      by (subst (asm) untunnel_loop.simps) (cases "backwardstep tfm p", simp_all)
    from "1.prems" True st obtain o' where
      o': "vec_set original (tfm_size tfm - i - 1) (word_of_nat (fst st)) = Inr o'"
      by (subst (asm) untunnel_loop.simps)
         (cases "vec_set original (tfm_size tfm - i - 1) (word_of_nat (fst st))", simp_all)
    from "1.prems" True st o' have "untunnel_loop tfm (i + 1) (snd st) o' = Inr r"
      by (subst (asm) untunnel_loop.simps) simp
    from "1.IH" [OF True this] have "length r = length o'" .
    moreover from o' have "length o' = length original"
      by (auto simp: vec_set_def split: if_splits)
    ultimately show ?thesis by simp
  qed
qed

lemma untunnel_loop_total:
  assumes closed: "\<And>p. P p \<Longrightarrow> \<exists>c p'. backwardstep tfm p = Inr (c, p') \<and> P p'"
    and "P p" and "length original = tfm_size tfm"
  shows "\<exists>r. untunnel_loop tfm i p original = Inr r"
  using assms(2,3)
proof (induction "tfm_size tfm - i" arbitrary: i p original)
  case 0
  then show ?case by (subst untunnel_loop.simps) simp
next
  case (Suc n)
  then have i: "i < tfm_size tfm" by simp
  from closed [OF Suc.prems(1)] obtain c p' where st: "backwardstep tfm p = Inr (c, p')" "P p'"
    by blast
  have vs: "vec_set original (tfm_size tfm - i - 1) (word_of_nat c)
              = Inr (original[tfm_size tfm - i - 1 := word_of_nat c])"
    using i Suc.prems(2) by (simp add: vec_set_def)
  have "n = tfm_size tfm - (i + 1)" using Suc.hyps(2) by simp
  from Suc.hyps(1) [OF this st(2), of "original[tfm_size tfm - i - 1 := word_of_nat c]"] Suc.prems(2)
  obtain r where "untunnel_loop tfm (i + 1) p' (original[tfm_size tfm - i - 1 := word_of_nat c]) = Inr r"
    by auto
  then show ?case using i st(1) vs by (subst untunnel_loop.simps) simp
qed

lemma invert_construct_text_len:
  "invert_construct_from_pfwg fs basename = Inr (tfm, log) \<Longrightarrow> text_len tfm = 12156306"
  by (auto simp: invert_construct_from_pfwg_def create_tfm_def Let_def ebind_eq_Inr orig_size_def)

text \<open>
  Claim C4. The claim asks that \<open>tfm_index_invert FILE\<close> write \<open>FILE.untunneled\<close>
  byte-identical to \<open>FILE\<close>, with exit code 0. The inverter returns 0 whenever it
  returns with an argument, but the file it writes always has \<open>12156306\<close> bytes, the
  constant \<open>orig_size\<close> of its \<open>construct_from_pfwg\<close>, whatever the length of \<open>FILE\<close>:
  the size of \<open>FILE\<close>, which \<open>main\<close> loads and prints, is not passed on. On \<open>fs_small\<close>,
  where \<open>FILE\<close> has two bytes, the run succeeds and writes 12156306 bytes (the header's
  loader, which takes the size from \<open>FILE\<close>, reconstructs the two bytes).
\<close>

theorem invert_output_length:
  assumes "main fs argv0 (f # args) = Inr (rc, fs', out)"
  shows "rc = 0 \<and> (\<exists>u. fs' (f @ ''.untunneled'') = Some u \<and> length u = 12156306)"
proof -
  from assms obtain tfm log where c: "invert_construct_from_pfwg fs f = Inr (tfm, log)"
    and u: "untunnel tfm (f @ ''.untunneled'') fs = Inr fs'" and rc: "rc = 0"
    by (auto simp: main_def Let_def ebind_eq_Inr)
  from u obtain original where
    l: "untunnel_loop tfm 0 (tfm_end tfm) (replicate (tfm_size tfm) 0) = Inr original"
    and fs': "fs' = fs(f @ ''.untunneled'' \<mapsto> original)"
    by (auto simp: untunnel_def ebind_eq_Inr)
  from untunnel_loop_length [OF l] have "length original = text_len tfm"
    by (simp add: tfm_size_def)
  with invert_construct_text_len [OF c] fs' rc show ?thesis by simp
qed

lemma symbol_frequencies_small:
  "symbol_frequencies [98, 0, 97] = Inr (0 # replicate 97 1 @ 2 # replicate 156 3)"
  by code_simp

lemma unpacked_bits_small: "unpacked_bits [0xF0] (length [98, 0, 97 :: u8] + 1) = [True, True, True, True]"
  by code_simp

lemma construct_small:
  "construct_from_pfwg fs_small ''t'' = Inr (tfm_small, [])"
proof -
  have "construct_from_pfwg fs_small ''t'' =
           Inr (\<lparr>text_len = length (load_vector_from_file fs_small ''t''),
                 m_L = map unat [98, 0, 97 :: u8],
                 m_C = 0 # replicate 97 1 @ 2 # replicate 156 3,
                 m_dout = unpacked_bits [0xF0] (length [98, 0, 97 :: u8] + 1),
                 m_dout_rank = init_support (unpacked_bits [0xF0] (length [98, 0, 97 :: u8] + 1)),
                 m_dout_select = init_support (unpacked_bits [0xF0] (length [98, 0, 97 :: u8] + 1)),
                 m_din = unpacked_bits [0xF0] (length [98, 0, 97 :: u8] + 1),
                 m_din_rank = init_support (unpacked_bits [0xF0] (length [98, 0, 97 :: u8] + 1)),
                 m_din_select = init_support (unpacked_bits [0xF0] (length [98, 0, 97 :: u8] + 1))\<rparr>, [])"
    by (rule construct_from_pfwg_eq [where db = "[0xF0]" and ob = "[0xF0]"])
       (simp_all add: fs_small_def load_vector_from_file_def symbol_frequencies_small)
  then show ?thesis
    unfolding unpacked_bits_small by (simp add: tfm_small_def fs_small_def load_vector_from_file_def)
qed

lemma invert_construct_small:
  "invert_construct_from_pfwg fs_small ''t'' = Inr (tfm_small\<lparr>text_len := orig_size\<rparr>, [])"
proof -
  have "invert_construct_from_pfwg fs_small ''t'' =
           Inr (\<lparr>text_len = orig_size,
                 m_L = map unat [98, 0, 97 :: u8],
                 m_C = 0 # replicate 97 1 @ 2 # replicate 156 3,
                 m_dout = unpacked_bits [0xF0] (length [98, 0, 97 :: u8] + 1),
                 m_dout_rank = init_support (unpacked_bits [0xF0] (length [98, 0, 97 :: u8] + 1)),
                 m_dout_select = init_support (unpacked_bits [0xF0] (length [98, 0, 97 :: u8] + 1)),
                 m_din = unpacked_bits [0xF0] (length [98, 0, 97 :: u8] + 1),
                 m_din_rank = init_support (unpacked_bits [0xF0] (length [98, 0, 97 :: u8] + 1)),
                 m_din_select = init_support (unpacked_bits [0xF0] (length [98, 0, 97 :: u8] + 1))\<rparr>, [])"
    by (rule invert_construct_from_pfwg_eq [where db = "[0xF0]" and ob = "[0xF0]"])
       (simp_all add: fs_small_def load_vector_from_file_def symbol_frequencies_small)
  then show ?thesis
    unfolding unpacked_bits_small by (simp add: tfm_small_def)
qed

lemma backwardstep_text_len [simp]:
  "backwardstep (tfm\<lparr>text_len := n\<rparr>) pos = backwardstep tfm pos"
  by (rule backwardstep_cong) simp_all

lemma tfm_small_steps:
  "backwardstep tfm_small (0, 0) = Inr (98, (2, 0))"
  "backwardstep tfm_small (2, 0) = Inr (97, (1, 0))"
  "backwardstep tfm_small (1, 0) = Inr (0, (0, 0))"
  by code_simp+

lemma untunnel_small: "untunnel_loop tfm_small 0 (tfm_end tfm_small) (replicate (tfm_size tfm_small) 0) = Inr [97, 98]"
  by code_simp

theorem invert_output_length_witness:
  "\<exists>fs' out u. main fs_small ''tfm_index_invert'' [''t''] = Inr (0, fs', out)
      \<and> fs' ''t.untunneled'' = Some u \<and> length u = 12156306
      \<and> fs_small ''t'' = Some [97, 98]"
proof -
  let ?tfm = "tfm_small\<lparr>text_len := orig_size\<rparr>"
  define P where "P p \<longleftrightarrow> p = (0, 0) \<or> p = (2, 0) \<or> p = (1, 0)" for p :: nav_type
  have closed: "\<exists>c p'. backwardstep ?tfm p = Inr (c, p') \<and> P p'" if "P p" for p
    using that tfm_small_steps unfolding P_def by auto
  have "P (tfm_end ?tfm)" by (simp add: P_def tfm_end_def)
  from untunnel_loop_total [of P ?tfm, OF closed this, of "replicate (tfm_size ?tfm) 0" 0]
  obtain original where
    l: "untunnel_loop ?tfm 0 (tfm_end ?tfm) (replicate (tfm_size ?tfm) 0) = Inr original"
    by auto
  have m: "main fs_small ''tfm_index_invert'' [''t'']
          = Inr (0, fs_small(''t'' @ ''.untunneled'' \<mapsto> original),
                 [Cout_num (length (load_vector_from_file fs_small ''t''))])"
    by (simp add: main_def Let_def invert_construct_small untunnel_def l)
  from invert_output_length [OF m] have "length original = 12156306" by simp
  moreover have "fs_small ''t'' = Some [97, 98]" by (simp add: fs_small_def)
  ultimately show ?thesis using m by simp
qed


section \<open>The LF-mapping is the rank of a row\<close>

text \<open>
  \<open>lf L i\<close> counts the rows that come before row \<open>i\<close>; it is therefore strictly monotone
  in that order and a bijection on the rows.
\<close>

lemma rank_c_card:
  assumes "i \<le> length L"
  shows "rank_c L c i = card {t. t < i \<and> L ! t = c}"
proof -
  have "rank_c L c i = card {t. t < length (take i L) \<and> take i L ! t = c}"
    unfolding rank_c_def by (rule length_filter_conv_card)
  also have "{t. t < length (take i L) \<and> take i L ! t = c} = {t. t < i \<and> L ! t = c}"
    using assms by auto
  finally show ?thesis .
qed

lemma lf_card:
  assumes "i < length L"
  shows "lf L i = card {t. t < length L \<and> lf_before L t i}"
proof -
  let ?A = "{t. t < length L \<and> L ! t < L ! i}"
  let ?B = "{t. t < i \<and> L ! t = L ! i}"
  have "lf L i = card ?A + card ?B"
    using assms by (simp add: lf_def length_filter_conv_card rank_c_card)
  also have "\<dots> = card (?A \<union> ?B)"
    by (rule card_Un_disjoint [symmetric]) auto
  also have "?A \<union> ?B = {t. t < length L \<and> lf_before L t i}"
    using assms by (auto simp: lf_before_def)
  finally show ?thesis .
qed

lemma lf_before_trans: "lf_before L a b \<Longrightarrow> lf_before L b c \<Longrightarrow> lf_before L a c"
  by (auto simp: lf_before_def)

lemma lf_before_total: "a \<noteq> b \<Longrightarrow> lf_before L a b \<or> lf_before L b a"
  by (auto simp: lf_before_def)

lemma lf_before_irrefl: "\<not> lf_before L a a"
  by (simp add: lf_before_def)

lemma lf_mono:
  assumes "i < length L" "j < length L" "lf_before L i j"
  shows "lf L i < lf L j"
proof -
  have "{t. t < length L \<and> lf_before L t i} \<subset> {t. t < length L \<and> lf_before L t j}"
    using assms lf_before_trans [of L _ i j] lf_before_irrefl [of L i] by blast
  then show ?thesis
    using assms by (simp add: lf_card psubset_card_mono)
qed

lemma lf_less_iff:
  assumes "i < length L" "j < length L"
  shows "lf L i < lf L j \<longleftrightarrow> lf_before L i j"
proof
  assume "lf_before L i j"
  then show "lf L i < lf L j" using assms by (simp add: lf_mono)
next
  assume lt: "lf L i < lf L j"
  show "lf_before L i j"
  proof (rule ccontr)
    assume n: "\<not> lf_before L i j"
    from lt have "i \<noteq> j" by auto
    with n have "lf_before L j i" using lf_before_total by blast
    then have "lf L j < lf L i" using assms by (simp add: lf_mono)
    with lt show False by simp
  qed
qed

lemma lf_inj:
  assumes "i < length L" "j < length L" "lf L i = lf L j"
  shows "i = j"
proof (rule ccontr)
  assume "i \<noteq> j"
  then have "lf_before L i j \<or> lf_before L j i" by (rule lf_before_total)
  then show False using assms lf_mono [of i L j] lf_mono [of j L i] by auto
qed

lemma lf_bound:
  assumes "i < length L"
  shows "lf L i < length L"
proof -
  have "{t. t < length L \<and> lf_before L t i} \<subset> {..<length L}"
    using assms lf_before_irrefl [of L i] by blast
  then have "card {t. t < length L \<and> lf_before L t i} < card {..<length L}"
    by (intro psubset_card_mono) simp_all
  then show ?thesis using assms by (simp add: lf_card)
qed

lemma lf_bij: "bij_betw (lf L) {..<length L} {..<length L}"
proof -
  have inj: "inj_on (lf L) {..<length L}"
    by (rule inj_onI) (simp add: lf_inj)
  have sub: "lf L ` {..<length L} \<subseteq> {..<length L}"
    using lf_bound by auto
  have "card (lf L ` {..<length L}) = card {..<length L}"
    using inj by (rule card_image)
  then have "lf L ` {..<length L} = {..<length L}"
    using sub by (simp add: card_subset_eq)
  with inj show ?thesis by (simp add: bij_betw_def)
qed

section \<open>Rotations of a terminated text\<close>

text \<open>
  The rotations of a terminated text are pairwise distinct, so the sorted rows are strictly
  increasing, and rotating two rows to the right preserves their order exactly when the LF
  order says so.
\<close>

lemma rotate1_rotr: "s \<noteq> [] \<Longrightarrow> rotate1 (rotr s) = s"
  by (simp add: rotr_def)

lemma rotr_rotate1: "s \<noteq> [] \<Longrightarrow> rotr (rotate1 s) = s"
  by (cases s) (simp_all add: rotr_def)

lemma length_rotr: "s \<noteq> [] \<Longrightarrow> length (rotr s) = length s"
  by (simp add: rotr_def)

lemma rotr_inj: "s \<noteq> [] \<Longrightarrow> s' \<noteq> [] \<Longrightarrow> rotr s = rotr s' \<Longrightarrow> s = s'"
  by (metis rotate1_rotr)

lemma set_rotations: "set (rotations T) = (\<lambda>k. rotate k T) ` {..<length T}"
  by (auto simp: rotations_def)

lemma rotations_length: "s \<in> set (rotations T) \<Longrightarrow> length s = length T"
  by (auto simp: set_rotations)

lemma rotate_mem: "T \<noteq> [] \<Longrightarrow> rotate k T \<in> set (rotations T)"
proof -
  assume "T \<noteq> []"
  then have "k mod length T < length T" by simp
  moreover have "rotate k T = rotate (k mod length T) T" by (rule rotate_conv_mod)
  ultimately show ?thesis unfolding set_rotations by blast
qed

lemma rotr_mem:
  assumes "s \<in> set (rotations T)"
  shows "rotr s \<in> set (rotations T)"
proof -
  from assms obtain k where k: "k < length T" "s = rotate k T" by (auto simp: set_rotations)
  then have ne: "T \<noteq> []" by auto
  have "rotate1 (rotate (k + length T - 1) T) = rotate (Suc (k + length T - 1)) T" by simp
  also have "Suc (k + length T - 1) = k + length T" using k by simp
  also have "rotate (k + length T) T = rotate k T"
    by (metis add.commute mod_add_self1 rotate_conv_mod)
  finally have "rotate1 (rotate (k + length T - 1) T) = s" using k by simp
  moreover have "rotate (k + length T - 1) T \<noteq> []" using ne by simp
  ultimately have "rotr s = rotate (k + length T - 1) T" by (metis rotr_rotate1)
  then show ?thesis using rotate_mem [OF ne] by simp
qed

lemma terminator_unique:
  assumes "terminated T" "p < length T" "T ! p = last T"
  shows "p = length T - 1"
proof (rule ccontr)
  assume "p \<noteq> length T - 1"
  with assms(2) have "p < length (butlast T)" by simp
  then have "butlast T ! p \<in> set (butlast T)" by (rule nth_mem)
  moreover have "butlast T ! p = T ! p" using \<open>p < length (butlast T)\<close> by (simp add: nth_butlast)
  ultimately have "last T < T ! p" using assms(1) by (auto simp: terminated_def)
  with assms(3) show False by simp
qed

lemma distinct_rotations:
  assumes "terminated T"
  shows "distinct (rotations T)"
proof -
  let ?n = "length T"
  from assms have ne: "T \<noteq> []" by (simp add: terminated_def)
  have "inj_on (\<lambda>k. rotate k T) {0..<?n}"
  proof (rule inj_onI)
    fix j k assume j: "j \<in> {0..<?n}" and k: "k \<in> {0..<?n}" and eq: "rotate j T = rotate k T"
    have "rotate j T ! (?n - 1 - j) = T ! ((j + (?n - 1 - j)) mod ?n)"
      using j ne by (intro nth_rotate) auto
    also have "(j + (?n - 1 - j)) mod ?n = ?n - 1" using j by auto
    finally have "rotate k T ! (?n - 1 - j) = last T"
      using eq ne by (simp add: last_conv_nth)
    moreover have "rotate k T ! (?n - 1 - j) = T ! ((k + (?n - 1 - j)) mod ?n)"
      using j ne by (intro nth_rotate) auto
    ultimately have "T ! ((k + (?n - 1 - j)) mod ?n) = last T" by simp
    from terminator_unique [OF assms _ this] ne
    have m: "(k + (?n - 1 - j)) mod ?n = ?n - 1" by simp
    show "j = k"
    proof (cases "k + (?n - 1 - j) < ?n")
      case True
      with m have "k + (?n - 1 - j) = ?n - 1" by simp
      then show ?thesis using j k by auto
    next
      case False
      define a where "a = k + (?n - 1 - j)"
      have a: "?n \<le> a" "a - ?n < ?n - 1" using False j k by (auto simp: a_def)
      have "a mod ?n = (a - ?n) mod ?n" using a(1) by (simp add: le_mod_geq)
      also have "\<dots> = a - ?n" using a(2) by simp
      finally have "a mod ?n < ?n - 1" using a(2) by simp
      with m show ?thesis by (simp add: a_def)
    qed
  qed
  then show ?thesis by (simp add: rotations_def distinct_map)
qed

lemma bwt_rows_props:
  assumes "terminated T"
  shows "sorted_wrt (<) (bwt_rows T)" "set (bwt_rows T) = set (rotations T)"
    "length (bwt_rows T) = length T" "distinct (bwt_rows T)"
  using distinct_rotations [OF assms]
  by (simp_all add: bwt_rows_def strict_sorted_iff rotations_def)

lemma bwt_rows_nth_less:
  assumes "terminated T" "a < length T" "b < length T"
  shows "bwt_rows T ! a < bwt_rows T ! b \<longleftrightarrow> a < b"
proof -
  note p = bwt_rows_props [OF assms(1)]
  have lt: "a' < b' \<Longrightarrow> b' < length T \<Longrightarrow> bwt_rows T ! a' < bwt_rows T ! b'" for a' b'
    using p(1,3) by (simp add: sorted_wrt_iff_nth_less)
  show ?thesis
  proof (cases "a < b")
    case True
    then show ?thesis using lt assms by simp
  next
    case False
    show ?thesis
    proof (cases "a = b")
      case True
      then show ?thesis by simp
    next
      case ne: False
      with False have "b < a" by simp
      then have "bwt_rows T ! b < bwt_rows T ! a" using lt assms by simp
      then show ?thesis using False by auto
    qed
  qed
qed

lemma snoc_less_iff:
  "length xs = length ys \<Longrightarrow> xs @ [c] < ys @ [c] \<longleftrightarrow> xs < (ys :: 'a :: linorder list)"
  by (induction xs ys rule: list_induct2) auto

lemma rotr_less_iff:
  assumes "length s = length s'" "s \<noteq> []"
  shows "rotr s < rotr s' \<longleftrightarrow> last s < last s' \<or> (last s = last s' \<and> s < (s' :: 'a :: linorder list))"
proof -
  from assms have ne': "s' \<noteq> []" by auto
  have "last s = last s' \<Longrightarrow> (butlast s < butlast s' \<longleftrightarrow> s < s')"
  proof -
    assume l: "last s = last s'"
    have e: "s = butlast s @ [last s]" "s' = butlast s' @ [last s]"
      using append_butlast_last_id [OF assms(2)] append_butlast_last_id [OF ne'] l by simp_all
    have "butlast s @ [last s] < butlast s' @ [last s] \<longleftrightarrow> butlast s < butlast s'"
      using assms by (intro snoc_less_iff) simp
    then show ?thesis using e by metis
  qed
  then show ?thesis by (auto simp: rotr_def)
qed

section \<open>LF on the transform is rotation to the right\<close>

lemma bij_card_less:
  assumes "bij_betw h {..<n} {..<(n::nat)}" "i < n"
  shows "card {t. t < n \<and> h t < h i} = h i"
proof -
  let ?A = "{t. t < n \<and> h t < h i}"
  have inj: "inj_on h ?A"
    using assms(1) by (auto simp: bij_betw_def inj_on_def)
  have hi: "h i < n" using assms by (auto simp: bij_betw_def)
  have "h ` ?A = {..<h i}"
  proof
    show "h ` ?A \<subseteq> {..<h i}" by auto
    show "{..<h i} \<subseteq> h ` ?A"
    proof
      fix y assume "y \<in> {..<h i}"
      then have y: "y < h i" "y < n" using hi by auto
      then have "y \<in> h ` {..<n}" using assms(1) by (auto simp: bij_betw_def)
      then obtain t where "t < n" "y = h t" by auto
      with y show "y \<in> h ` ?A" by auto
    qed
  qed
  then have "card (h ` ?A) = h i" by simp
  then show ?thesis using inj by (simp add: card_image)
qed

lemma bwt_lf:
  assumes T: "terminated T" and i: "i < length T"
  shows "bwt_rows T ! lf (map unat (bwt T)) i = rotr (bwt_rows T ! i)"
proof -
  let ?S = "bwt_rows T" and ?n = "length T"
  let ?L = "map unat (bwt T)"
  note p = bwt_rows_props [OF T]
  have lenL: "length ?L = ?n" by (simp add: bwt_def p(3))
  have mem: "?S ! t \<in> set (rotations T)" if "t < ?n" for t
    using that p(2,3) nth_mem [of t ?S] by simp
  have len: "length (?S ! t) = ?n" if "t < ?n" for t
    using rotations_length [OF mem [OF that]] .
  have ne: "?S ! t \<noteq> []" if "t < ?n" for t
    using len [OF that] that by auto
  have "\<forall>t. \<exists>k. t < ?n \<longrightarrow> k < ?n \<and> ?S ! k = rotr (?S ! t)"
  proof (intro allI)
    fix t
    show "\<exists>k. t < ?n \<longrightarrow> k < ?n \<and> ?S ! k = rotr (?S ! t)"
    proof (cases "t < ?n")
      case True
      then have "rotr (?S ! t) \<in> set ?S" using rotr_mem [OF mem] p(2) by simp
      then show ?thesis using p(3) by (metis in_set_conv_nth)
    next
      case False
      then show ?thesis by simp
    qed
  qed
  then obtain h where h: "\<And>t. t < ?n \<Longrightarrow> h t < ?n \<and> ?S ! h t = rotr (?S ! t)"
    by metis
  have inj: "inj_on h {..<?n}"
  proof (rule inj_onI)
    fix a b assume ab: "a \<in> {..<?n}" "b \<in> {..<?n}" and e: "h a = h b"
    then have "rotr (?S ! a) = rotr (?S ! b)" using h [of a] h [of b] by simp
    then have "?S ! a = ?S ! b" using rotr_inj ne ab by auto
    then show "a = b" using p(3,4) ab by (simp add: nth_eq_iff_index_eq)
  qed
  have bij: "bij_betw h {..<?n} {..<?n}"
  proof -
    have sub: "h ` {..<?n} \<subseteq> {..<?n}" using h by auto
    have "card (h ` {..<?n}) = card {..<?n}" using inj by (rule card_image)
    then have "h ` {..<?n} = {..<?n}" using sub by (simp add: card_subset_eq)
    with inj show ?thesis by (simp add: bij_betw_def)
  qed
  have ord: "h a < h b \<longleftrightarrow> lf_before ?L a b" if ab: "a < ?n" "b < ?n" for a b
  proof -
    have "h a < h b \<longleftrightarrow> ?S ! h a < ?S ! h b"
      using bwt_rows_nth_less [OF T, of "h a" "h b"] h ab by simp
    also have "\<dots> \<longleftrightarrow> rotr (?S ! a) < rotr (?S ! b)" using h ab by simp
    also have "\<dots> \<longleftrightarrow> last (?S ! a) < last (?S ! b)
                    \<or> (last (?S ! a) = last (?S ! b) \<and> ?S ! a < ?S ! b)"
      using len ne ab by (intro rotr_less_iff) simp_all
    also have "\<dots> \<longleftrightarrow> last (?S ! a) < last (?S ! b) \<or> (last (?S ! a) = last (?S ! b) \<and> a < b)"
      using bwt_rows_nth_less [OF T ab] by simp
    also have "\<dots> \<longleftrightarrow> lf_before ?L a b"
      using ab p(3) by (simp add: lf_before_def bwt_def word_less_nat_alt word_unat_eq_iff)
    finally show ?thesis .
  qed
  have "{t. t < ?n \<and> h t < h i} = {t. t < length ?L \<and> lf_before ?L t i}"
    using ord i lenL by auto
  then have "h i = lf ?L i"
    using bij_card_less [OF bij i] lf_card [of i ?L] i lenL by simp
  then show ?thesis using h [OF i] by simp
qed

lemma bwt_first_row:
  assumes T: "terminated T"
  shows "bwt_rows T ! 0 = rotr T"
proof -
  let ?S = "bwt_rows T" and ?n = "length T"
  note p = bwt_rows_props [OF T]
  from T have ne: "T \<noteq> []" by (simp add: terminated_def)
  have "T \<in> set (rotations T)" using rotate_mem [OF ne, of 0] by simp
  then have rm: "rotr T \<in> set ?S" using rotr_mem p(2) by simp
  have least: "rotr T \<le> s" if s: "s \<in> set (rotations T)" for s
  proof -
    from s obtain k where k: "k < ?n" "s = rotate k T" by (auto simp: set_rotations)
    have hd: "hd s = T ! k" using k ne by (simp add: hd_rotate_conv_nth)
    have sne: "s \<noteq> []" using k ne by simp
    show ?thesis
    proof (cases "k = ?n - 1")
      case True
      have "rotate1 s = rotate (Suc k) T" using k by simp
      also have "Suc k = ?n" using True ne by simp
      finally have "rotate1 s = T" by simp
      then have "s = rotr T" using rotr_rotate1 [OF sne] by simp
      then show ?thesis by simp
    next
      case False
      then have "k < length (butlast T)" using k by simp
      then have "butlast T ! k \<in> set (butlast T)" "butlast T ! k = T ! k"
        using nth_mem [of k "butlast T"] by (simp_all add: nth_butlast)
      then have "last T < hd s" using T hd by (auto simp: terminated_def)
      moreover have "s = hd s # tl s" using sne by simp
      ultimately have "rotr T < s" unfolding rotr_def
        by (metis Cons_less_Cons)
      then show ?thesis by simp
    qed
  qed
  have "0 < ?n" using ne by simp
  then have "?S ! 0 \<in> set (rotations T)" using p(2,3) nth_mem [of 0 ?S] by simp
  then have a: "rotr T \<le> ?S ! 0" by (rule least)
  from rm obtain k where k: "k < ?n" "?S ! k = rotr T" using p(3) by (metis in_set_conv_nth)
  have "?S ! 0 \<le> ?S ! k"
    using p(1,3) k(1) by (cases "k = 0") (simp_all add: sorted_wrt_iff_nth_less less_imp_le)
  with a k(2) show ?thesis by simp
qed

section \<open>The LF walk spells the text backwards\<close>

lemma rotr_funpow:
  assumes "T \<noteq> []" "k \<le> length T"
  shows "(rotr ^^ k) T = rotate (length T - k) T"
  using assms(2)
proof (induction k)
  case 0
  show ?case by simp
next
  case (Suc k)
  then have IH: "(rotr ^^ k) T = rotate (length T - k) T" by simp
  have "length T - k = Suc (length T - Suc k)" using Suc.prems by simp
  then have "rotate (length T - k) T = rotate1 (rotate (length T - Suc k) T)" by simp
  moreover have "rotate (length T - Suc k) T \<noteq> []" using assms(1) by simp
  ultimately have "rotr (rotate (length T - k) T) = rotate (length T - Suc k) T"
    by (simp add: rotr_rotate1)
  with IH show ?case by simp
qed

lemma last_rotr_funpow:
  assumes "T \<noteq> []" "k < length T"
  shows "last ((rotr ^^ Suc k) T) = T ! ((length T - Suc k + (length T - 1)) mod length T)"
proof -
  let ?n = "length T"
  have "(rotr ^^ Suc k) T = rotate (?n - Suc k) T"
    using assms by (intro rotr_funpow) simp_all
  moreover have "last (rotate (?n - Suc k) T) = rotate (?n - Suc k) T ! (?n - 1)"
    using assms by (simp add: last_conv_nth)
  moreover have "rotate (?n - Suc k) T ! (?n - 1) = T ! ((?n - Suc k + (?n - 1)) mod ?n)"
    using assms by (intro nth_rotate) simp
  ultimately show ?thesis by simp
qed

lemma last_rotr_funpow_text:
  assumes "T \<noteq> []" "Suc k < length T"
  shows "last ((rotr ^^ Suc k) T) = T ! (length T - 2 - k)"
proof -
  let ?n = "length T"
  have "?n - Suc k + (?n - 1) = ?n + (?n - 2 - k)" using assms by simp
  then have "(?n - Suc k + (?n - 1)) mod ?n = (?n - 2 - k) mod ?n" by simp
  also have "\<dots> = ?n - 2 - k" using assms by simp
  finally show ?thesis using last_rotr_funpow [of T k] assms by simp
qed

lemma last_rotr_funpow_terminator:
  assumes "T \<noteq> []"
  shows "last ((rotr ^^ length T) T) = last T"
  using rotr_funpow [OF assms, of "length T"] by simp

lemma bwt_walk:
  assumes T: "terminated T"
  shows "(lf (map unat (bwt T)) ^^ t) 0 < length T
         \<and> bwt_rows T ! ((lf (map unat (bwt T)) ^^ t) 0) = (rotr ^^ Suc t) T"
proof (induction t)
  case 0
  from T have "T \<noteq> []" by (simp add: terminated_def)
  then show ?case using bwt_first_row [OF T] by simp
next
  case (Suc t)
  let ?L = "map unat (bwt T)"
  let ?r = "(lf ?L ^^ t) 0"
  from Suc have r: "?r < length T" and row: "bwt_rows T ! ?r = (rotr ^^ Suc t) T" by simp_all
  have lenL: "length ?L = length T" by (simp add: bwt_def bwt_rows_props(3) [OF T])
  have "lf ?L ?r < length T" using lf_bound [of ?r ?L] r lenL by simp
  moreover have "bwt_rows T ! lf ?L ?r = rotr ((rotr ^^ Suc t) T)"
    using bwt_lf [OF T r] row by simp
  ultimately show ?case by simp
qed

lemma bwt_walk_char:
  assumes T: "terminated T" and t: "Suc t < length T"
  shows "map unat (bwt T) ! ((lf (map unat (bwt T)) ^^ t) 0) = unat (T ! (length T - 2 - t))"
proof -
  from T have ne: "T \<noteq> []" by (simp add: terminated_def)
  note w = bwt_walk [OF T, of t]
  have "map unat (bwt T) ! ((lf (map unat (bwt T)) ^^ t) 0)
          = unat (last (bwt_rows T ! ((lf (map unat (bwt T)) ^^ t) 0)))"
    using w by (simp add: bwt_def bwt_rows_props(3) [OF T])
  also have "\<dots> = unat (last ((rotr ^^ Suc t) T))" using w by simp
  also have "\<dots> = unat (T ! (length T - 2 - t))"
    using last_rotr_funpow_text [OF ne t] by simp
  finally show ?thesis .
qed

lemma bwt_walk_terminator:
  assumes T: "terminated T"
  shows "map unat (bwt T) ! ((lf (map unat (bwt T)) ^^ (length T - 1)) 0) = unat (last T)"
proof -
  from T have ne: "T \<noteq> []" by (simp add: terminated_def)
  then have S: "Suc (length T - 1) = length T" by simp
  note w = bwt_walk [OF T, of "length T - 1"]
  have "map unat (bwt T) ! ((lf (map unat (bwt T)) ^^ (length T - 1)) 0)
          = unat (last (bwt_rows T ! ((lf (map unat (bwt T)) ^^ (length T - 1)) 0)))"
    using w by (simp add: bwt_def bwt_rows_props(3) [OF T])
  also have "\<dots> = unat (last ((rotr ^^ length T) T))" using w by (simp only: S)
  also have "\<dots> = unat (last T)" using last_rotr_funpow_terminator [OF ne] by simp
  finally show ?thesis .
qed

section \<open>Kept rows and block tops\<close>

lemma kept_split: "i \<le> N \<Longrightarrow> kept bv N = kept bv i @ filter (\<lambda>t. bv ! t) [i..<N]"
proof -
  assume "i \<le> N"
  then have "[0..<N] = [0..<i] @ [i..<N]"
    by (metis le_add_diff_inverse upt_add_eq_append zero_le)
  then show ?thesis by (simp add: kept_def)
qed

lemma kept_take: "i \<le> N \<Longrightarrow> take (length (kept bv i)) (kept bv N) = kept bv i"
  by (simp add: kept_split [of i N])

lemma length_kept_Suc: "length (kept bv (Suc j)) = length (kept bv j) + (if bv ! j then 1 else 0)"
  by (simp add: kept_Suc)

lemma length_kept_mono: "i \<le> j \<Longrightarrow> length (kept bv i) \<le> length (kept bv j)"
  by (simp add: kept_split [of i j])

lemma kept_nth:
  assumes "j < N" "bv ! j"
  shows "kept bv N ! length (kept bv j) = j" "length (kept bv j) < length (kept bv N)"
proof -
  have "kept bv N = kept bv (Suc j) @ filter (\<lambda>t. bv ! t) [Suc j..<N]"
    using assms(1) by (intro kept_split) simp
  then have e: "kept bv N = kept bv j @ j # filter (\<lambda>t. bv ! t) [Suc j..<N]"
    using assms(2) by (simp add: kept_Suc)
  show "kept bv N ! length (kept bv j) = j" by (subst e) simp
  have "length (kept bv N) = length (kept bv j) + Suc (length (filter (\<lambda>t. bv ! t) [Suc j..<N]))"
    by (subst e) simp
  then show "length (kept bv j) < length (kept bv N)" by simp
qed

lemma length_both_Suc:
  "length (both f g (Suc j)) = length (both f g j) + (if f ! j \<and> g ! j then 1 else 0)"
  by (simp add: both_def)

lemma length_both_mono: "i \<le> j \<Longrightarrow> length (both f g i) \<le> length (both f g j)"
proof (induction j)
  case 0
  then show ?case by simp
next
  case (Suc j)
  then show ?case by (cases "i = Suc j") (simp_all add: length_both_Suc)
qed

lemma rank1_map_kept:
  assumes "i \<le> N"
  shows "rank1 (map (\<lambda>t. f ! t) (kept bv N) @ xs) (length (kept bv i)) = length (both bv f i)"
proof -
  have "length (kept bv i) \<le> length (kept bv N)" using assms by (rule length_kept_mono)
  then have "take (length (kept bv i)) (map (\<lambda>t. f ! t) (kept bv N) @ xs)
          = map (\<lambda>t. f ! t) (take (length (kept bv i)) (kept bv N))"
    by (simp add: take_map)
  also have "\<dots> = map (\<lambda>t. f ! t) (kept bv i)" using assms by (simp add: kept_take)
  finally have "rank1 (map (\<lambda>t. f ! t) (kept bv N) @ xs) (length (kept bv i))
          = length (filter id (map (\<lambda>t. f ! t) (kept bv i)))"
    by (simp add: rank1_def)
  also have "\<dots> = length (filter (\<lambda>t. f ! t) (kept bv i))"
    by (simp add: filter_map comp_def)
  also have "\<dots> = length (both bv f i)"
    by (simp add: kept_def both_def conj_commute)
  finally show ?thesis .
qed

lemma select1_eqI:
  "p < length bv \<Longrightarrow> bv ! p \<Longrightarrow> rank1 bv p + 1 = k \<Longrightarrow> select1 bv k = Some p"
proof (induction bv arbitrary: p k)
  case Nil
  then show ?case by simp
next
  case (Cons b bs)
  show ?case
  proof (cases p)
    case 0
    with Cons.prems show ?thesis by simp
  next
    case (Suc q)
    with Cons.prems have q: "q < length bs" "bs ! q"
      and r: "(if b then 1 else 0) + rank1 bs q + 1 = k"
      by (simp_all add: rank1_Cons_Suc)
    show ?thesis
    proof (cases b)
      case True
      with r have "rank1 bs q + 1 = k - 1" "k \<noteq> 1" "k \<noteq> 0" by simp_all
      with Cons.IH [OF q, of "k - 1"] True Suc show ?thesis by simp
    next
      case False
      with r have "rank1 bs q + 1 = k" "k \<noteq> 0" by simp_all
      with Cons.IH [OF q, of k] False Suc show ?thesis by simp
    qed
  qed
qed

lemma block_top_le: "block_top bv r \<le> r"
  by (induction r) (simp_all add: le_SucI)

lemma block_top_set: "bv ! 0 \<Longrightarrow> bv ! block_top bv r"
  by (induction r) simp_all

lemma block_top_above: "block_top bv r < t \<Longrightarrow> t \<le> r \<Longrightarrow> \<not> bv ! t"
proof (induction r)
  case 0
  then show ?case by simp
next
  case (Suc r)
  show ?case
  proof (cases "bv ! Suc r")
    case True
    with Suc.prems show ?thesis by simp
  next
    case False
    show ?thesis
    proof (cases "t = Suc r")
      case True
      with False show ?thesis by simp
    next
      case ne: False
      with Suc.prems False have "block_top bv r < t" "t \<le> r" by simp_all
      then show ?thesis by (rule Suc.IH)
    qed
  qed
qed

lemma block_top_id: "bv ! r \<Longrightarrow> block_top bv r = r"
  by (cases r) simp_all

lemma block_top_eqI:
  assumes "b \<le> r" "bv ! b" "\<And>t. b < t \<Longrightarrow> t \<le> r \<Longrightarrow> \<not> bv ! t"
  shows "block_top bv r = b"
  using assms
proof (induction r)
  case 0
  then show ?case by simp
next
  case (Suc r)
  show ?case
  proof (cases "b = Suc r")
    case True
    with Suc.prems show ?thesis by simp
  next
    case False
    with Suc.prems have "b \<le> r" by simp
    moreover have "\<not> bv ! Suc r" using Suc.prems False by simp
    ultimately show ?thesis using Suc by simp
  qed
qed

lemma length_kept_run:
  assumes "\<And>t. a \<le> t \<Longrightarrow> t < a + d \<Longrightarrow> bv ! t"
  shows "length (kept bv (a + d)) = length (kept bv a) + d"
  using assms
proof (induction d)
  case 0
  show ?case by simp
next
  case (Suc d)
  then have "length (kept bv (a + d)) = length (kept bv a) + d" by simp
  moreover have "bv ! (a + d)" using Suc.prems by simp
  ultimately show ?case by (simp add: length_kept_Suc)
qed

lemma length_kept_gap:
  assumes "\<And>t. a \<le> t \<Longrightarrow> t < a + d \<Longrightarrow> \<not> bv ! t"
  shows "length (kept bv (a + d)) = length (kept bv a)"
  using assms
proof (induction d)
  case 0
  show ?case by simp
next
  case (Suc d)
  then have "length (kept bv (a + d)) = length (kept bv a)" by simp
  moreover have "\<not> bv ! (a + d)" using Suc.prems by simp
  ultimately show ?case by (simp add: length_kept_Suc)
qed

lemma length_both_gap:
  assumes "\<And>t. a \<le> t \<Longrightarrow> t < a + d \<Longrightarrow> \<not> (f ! t \<and> g ! t)"
  shows "length (both f g (a + d)) = length (both f g a)"
  using assms
proof (induction d)
  case 0
  show ?case by simp
next
  case (Suc d)
  then have "length (both f g (a + d)) = length (both f g a)" by simp
  moreover have "\<not> (f ! (a + d) \<and> g ! (a + d))" using Suc.prems by simp
  ultimately show ?case by (simp add: length_both_Suc)
qed

section \<open>LF on the kept rows\<close>

lemma valid_marking_iff:
  "valid_marking L0 dout0 din0 \<longleftrightarrow>
     length dout0 = length L0 + 1 \<and> length din0 = length L0 + 1 \<and>
     dout0 ! length L0 \<and> din0 ! length L0 \<and> dout0 ! 0 \<and> din0 ! 0 \<and>
     (\<forall>j < length L0. din0 ! j = dout0 ! lf L0 j) \<and>
     (\<forall>j < length L0. \<not> din0 ! j \<longrightarrow> L0 ! j = L0 ! (j - 1)) \<and>
     (\<forall>j < length L0. (\<not> din0 ! j \<or> \<not> dout0 ! j) \<longrightarrow>
          (din0 ! (j - 1) \<and> dout0 ! (j - 1))
          \<or> (din0 ! (j - 1) = din0 ! j \<and> dout0 ! (j - 1) = dout0 ! j))"
  unfolding valid_marking_def by (simp add: Ball_def)

lemma length_filter_upt_card: "length (filter P [0..<x]) = card {t. t < x \<and> P t}"
proof -
  have "{i. i < length [0..<x] \<and> P ([0..<x] ! i)} = {t. t < x \<and> P t}" by auto
  then show ?thesis using length_filter_conv_card [of P "[0..<x]"] by simp
qed

lemma length_kept_card: "length (kept bv x) = card {t. t < x \<and> bv ! t}"
  by (simp add: kept_def length_filter_upt_card)

lemma set_kept: "set (kept bv N) = {t. t < N \<and> bv ! t}"
  by (auto simp: kept_def)

lemma distinct_kept: "distinct (kept bv N)"
  by (simp add: kept_def)

lemma kept_index:
  assumes "s < length (kept bv N)"
  shows "kept bv N ! s < N" "bv ! (kept bv N ! s)" "length (kept bv (kept bv N ! s)) = s"
proof -
  let ?t = "kept bv N ! s"
  have "?t \<in> set (kept bv N)" using assms by simp
  then show t: "?t < N" "bv ! ?t" by (simp_all add: set_kept)
  from kept_nth [OF t] have "kept bv N ! length (kept bv ?t) = kept bv N ! s"
    "length (kept bv ?t) < length (kept bv N)" by simp_all
  then show "length (kept bv ?t) = s"
    using assms distinct_kept [of bv N] by (simp add: nth_eq_iff_index_eq)
qed

lemma length_kept_less_iff:
  assumes "bv ! a" "bv ! b"
  shows "length (kept bv a) < length (kept bv b) \<longleftrightarrow> a < b"
proof
  assume "a < b"
  then have "length (kept bv (Suc a)) \<le> length (kept bv b)" by (intro length_kept_mono) simp
  then show "length (kept bv a) < length (kept bv b)" using assms(1) by (simp add: length_kept_Suc)
next
  assume l: "length (kept bv a) < length (kept bv b)"
  show "a < b"
  proof (rule ccontr)
    assume "\<not> a < b"
    then have "b \<le> a" by simp
    then have "length (kept bv b) \<le> length (kept bv a)" by (rule length_kept_mono)
    with l show False by simp
  qed
qed

text \<open>The LF-mapping of the compacted L, in terms of the rows of the full L.\<close>

lemma compacted_lf:
  assumes pair: "\<And>t. t < length L0 \<Longrightarrow> din0 ! t = dout0 ! lf L0 t"
    and j: "j < length L0" "din0 ! j"
  shows "lf (map (\<lambda>t. L0 ! t) (kept din0 (length L0))) (length (kept din0 j))
           = length (kept dout0 (lf L0 j))"
proof -
  let ?n = "length L0"
  let ?K = "kept din0 ?n"
  let ?L = "map (\<lambda>t. L0 ! t) ?K"
  let ?m = "length ?K"
  let ?R = "{t. t < ?n \<and> din0 ! t \<and> lf_before L0 t j}"
  have lj: "length (kept din0 j) < ?m" "?K ! length (kept din0 j) = j"
    using kept_nth [OF j] by simp_all
  have before: "lf_before ?L s (length (kept din0 j)) \<longleftrightarrow> lf_before L0 (?K ! s) j" if s: "s < ?m" for s
  proof -
    note k = kept_index [OF s]
    have "s < length (kept din0 j) \<longleftrightarrow> ?K ! s < j"
      using length_kept_less_iff [OF k(2) j(2)] k(3) by simp
    then show ?thesis using s lj by (simp add: lf_before_def)
  qed
  have "lf ?L (length (kept din0 j)) = card {s. s < ?m \<and> lf_before ?L s (length (kept din0 j))}"
    using lf_card [of "length (kept din0 j)" ?L] lj by simp
  also have "{s. s < ?m \<and> lf_before ?L s (length (kept din0 j))}
               = {s. s < ?m \<and> lf_before L0 (?K ! s) j}"
    using before by auto
  also have "card \<dots> = card ((\<lambda>s. ?K ! s) ` {s. s < ?m \<and> lf_before L0 (?K ! s) j})"
  proof (rule card_image [symmetric])
    show "inj_on (\<lambda>s. ?K ! s) {s. s < ?m \<and> lf_before L0 (?K ! s) j}"
      using distinct_kept [of din0 ?n] by (auto simp: inj_on_def nth_eq_iff_index_eq)
  qed
  also have "(\<lambda>s. ?K ! s) ` {s. s < ?m \<and> lf_before L0 (?K ! s) j} = ?R"
  proof
    show "(\<lambda>s. ?K ! s) ` {s. s < ?m \<and> lf_before L0 (?K ! s) j} \<subseteq> ?R"
      using kept_index(1,2) [of _ din0 ?n] by auto
    show "?R \<subseteq> (\<lambda>s. ?K ! s) ` {s. s < ?m \<and> lf_before L0 (?K ! s) j}"
    proof
      fix t assume "t \<in> ?R"
      then have t: "t < ?n" "din0 ! t" "lf_before L0 t j" by simp_all
      from kept_nth [OF t(1,2)] have "?K ! length (kept din0 t) = t" "length (kept din0 t) < ?m"
        by simp_all
      with t(3) show "t \<in> (\<lambda>s. ?K ! s) ` {s. s < ?m \<and> lf_before L0 (?K ! s) j}"
        by (intro image_eqI [of _ _ "length (kept din0 t)"]) simp_all
    qed
  qed
  finally have left: "lf ?L (length (kept din0 j)) = card ?R" .
  have "length (kept dout0 (lf L0 j)) = card {f. f < lf L0 j \<and> dout0 ! f}"
    by (rule length_kept_card)
  also have "{f. f < lf L0 j \<and> dout0 ! f} = lf L0 ` ?R"
  proof
    show "{f. f < lf L0 j \<and> dout0 ! f} \<subseteq> lf L0 ` ?R"
    proof
      fix f assume "f \<in> {f. f < lf L0 j \<and> dout0 ! f}"
      then have f: "f < lf L0 j" "dout0 ! f" by simp_all
      have "f < ?n" using f(1) lf_bound [OF j(1)] by simp
      then have "f \<in> lf L0 ` {..<?n}" using lf_bij [of L0] by (simp add: bij_betw_def)
      then obtain t where t: "t < ?n" "f = lf L0 t" by auto
      have "din0 ! t" using pair [OF t(1)] f(2) t(2) by simp
      moreover have "lf_before L0 t j" using f(1) t lf_less_iff [OF t(1) j(1)] by simp
      ultimately show "f \<in> lf L0 ` ?R" using t by simp
    qed
    show "lf L0 ` ?R \<subseteq> {f. f < lf L0 j \<and> dout0 ! f}"
      using pair lf_mono [of _ L0 j] j(1) by auto
  qed
  also have "card (lf L0 ` ?R) = card ?R"
  proof (rule card_image)
    show "inj_on (lf L0) ?R" using lf_inj [of _ L0] by (auto simp: inj_on_def)
  qed
  finally show ?thesis using left by simp
qed

section \<open>One backward step on a compacted index\<close>

lemma both_bits_nth:
  "t < length f \<Longrightarrow> t < length g \<Longrightarrow> both_bits f g ! t \<longleftrightarrow> f ! t \<and> g ! t"
  by (simp add: both_bits_def)

lemma both_commute: "both f g i = both g f i"
  by (simp add: both_def conj_commute)

lemma compacted_nth:
  assumes "j < N" "bv ! j"
  shows "(map (\<lambda>t. f ! t) (kept bv N) @ xs) ! length (kept bv j) = f ! j"
  using kept_nth [OF assms] by (simp add: nth_append)

lemma tunneled_step:
  assumes vm: "valid_marking L0 dout0 din0" and ci: "compacted L0 dout0 din0 tfm"
    and j: "j < length L0" "din0 ! j"
    and n64: "length L0 < 2 ^ 64"
    and b_def: "b = block_top (both_bits din0 dout0) (lf L0 j)"
    and o'_def: "o' = (if din0 ! lf L0 j then o1
                       else length (kept dout0 (lf L0 j)) - length (kept dout0 b))"
  shows "backwardstep tfm (length (kept din0 j), o1) =
           Inr (L0 ! j,
                if \<not> m_dout tfm ! (length (kept din0 b) + 1)
                then (add64 (length (kept din0 b)) o', 0) else (length (kept din0 b), o'))"
    and "b \<le> lf L0 j" and "din0 ! b" and "dout0 ! b"
    and "\<And>t. b < t \<Longrightarrow> t \<le> lf L0 j \<Longrightarrow> \<not> (din0 ! t \<and> dout0 ! t)"
proof -
  let ?n = "length L0"
  let ?j' = "lf L0 j"
  let ?B = "both_bits din0 dout0"
  from vm have len: "length dout0 = ?n + 1" "length din0 = ?n + 1"
    and first: "dout0 ! 0" "din0 ! 0"
    and pair: "\<And>t. t < ?n \<Longrightarrow> din0 ! t = dout0 ! lf L0 t"
    unfolding valid_marking_iff by blast+
  from ci have L: "m_L tfm = map (\<lambda>t. L0 ! t) (kept din0 ?n)"
    and dout: "m_dout tfm = map (\<lambda>t. dout0 ! t) (kept din0 ?n) @ [True]"
    and din: "m_din tfm = map (\<lambda>t. din0 ! t) (kept dout0 ?n) @ [True]"
    and C: "\<And>c. c \<in> set (m_L tfm) \<Longrightarrow>
              c < length (m_C tfm) \<and> m_C tfm ! c = length (filter (\<lambda>x. x < c) (m_L tfm))"
    and rdy: "sup_ready (m_din_rank tfm) = Some (m_din tfm)"
      "sup_ready (m_din_select tfm) = Some (m_din tfm)"
      "sup_ready (m_dout_select tfm) = Some (m_dout tfm)"
    unfolding compacted_def by blast+
  have j'n: "?j' < ?n" using j(1) by (rule lf_bound)
  have oj': "dout0 ! ?j'" using pair [OF j(1)] j(2) by simp
  \<comment> \<open>the node: the last row at or before the target with both bits set\<close>
  have B0: "?B ! 0" using first len by (simp add: both_bits_nth)
  have ble: "b \<le> ?j'" unfolding b_def by (rule block_top_le)
  have bn: "b < ?n" using ble j'n by simp
  have "?B ! b" unfolding b_def using B0 by (rule block_top_set)
  then have bb: "din0 ! b" "dout0 ! b" using bn len by (simp_all add: both_bits_nth)
  have nob: "\<not> (din0 ! t \<and> dout0 ! t)" if "b < t" "t \<le> ?j'" for t
  proof -
    have "\<not> ?B ! t" using that unfolding b_def by (intro block_top_above) simp_all
    then show ?thesis using that j'n len by (simp add: both_bits_nth)
  qed
  show "b \<le> ?j'" "din0 ! b" "dout0 ! b" using ble bb by simp_all
  show "\<And>t. b < t \<Longrightarrow> t \<le> lf L0 j \<Longrightarrow> \<not> (din0 ! t \<and> dout0 ! t)" using nob by simp
  \<comment> \<open>step 1 and 2: the character and the LF-mapping\<close>
  note kj = kept_nth [OF j]
  have Lj: "m_L tfm ! length (kept din0 j) = L0 ! j" using kj by (simp add: L)
  have lenL: "length (kept din0 j) < length (m_L tfm)" using kj by (simp add: L)
  have 1: "inverse_select (m_L tfm) (length (kept din0 j))
             = Inr (rank_c (m_L tfm) (L0 ! j) (length (kept din0 j)), L0 ! j)"
    using lenL Lj by (simp add: inverse_select_def)
  have cin: "L0 ! j \<in> set (m_L tfm)" using lenL Lj by (metis nth_mem)
  have 2: "vec_at (m_C tfm) (L0 ! j) = Inr (m_C tfm ! (L0 ! j))"
    using C [OF cin] by (simp add: vec_at_def)
  have "m_C tfm ! (L0 ! j) + rank_c (m_L tfm) (L0 ! j) (length (kept din0 j))
          = lf (m_L tfm) (length (kept din0 j))"
    using C [OF cin] Lj by (simp add: lf_def)
  also have "\<dots> = length (kept dout0 ?j')"
    unfolding L using compacted_lf [of L0 din0 dout0 j] pair j by simp
  finally have lfeq: "m_C tfm ! (L0 ! j) + rank_c (m_L tfm) (L0 ! j) (length (kept din0 j))
          = length (kept dout0 ?j')" .
  \<comment> \<open>step 3: the rank in din\<close>
  note kj' = kept_nth [OF j'n oj']
  have lendin: "length (m_din tfm) = length (kept dout0 ?n) + 1" by (simp add: din)
  have r: "rank1 (m_din tfm) (length (kept dout0 x)) = length (both dout0 din0 x)" if "x \<le> ?n" for x
    unfolding din using that by (rule rank1_map_kept)
  have "length (kept dout0 ?j') + 1 = length (kept dout0 (Suc ?j'))"
    using oj' by (simp add: length_kept_Suc)
  then have rk: "rank1 (m_din tfm) (length (kept dout0 ?j') + 1) = length (both dout0 din0 (Suc ?j'))"
    using r [of "Suc ?j'"] j'n by simp
  have gap: "length (both dout0 din0 (Suc ?j')) = length (both dout0 din0 (Suc b))"
  proof -
    have "length (both dout0 din0 (Suc b + (?j' - b))) = length (both dout0 din0 (Suc b))"
      by (rule length_both_gap) (use nob in auto)
    then show ?thesis using ble by simp
  qed
  define k where "k = length (both dout0 din0 b) + 1"
  have kk: "length (both dout0 din0 (Suc ?j')) = k"
    using gap bb by (simp add: length_both_Suc k_def)
  have 3: "rank_query (m_din_rank tfm) (length (kept dout0 ?j') + 1) = Inr k"
    using rdy(1) kj'(2) lendin rk kk by (simp add: rank_query_def)
  \<comment> \<open>step 4: the bit of din\<close>
  have 4: "vec_at (m_din tfm) (length (kept dout0 ?j')) = Inr (din0 ! ?j')"
    using kj' compacted_nth [OF j'n oj', of din0 "[True]"] by (simp add: vec_at_def din)
  \<comment> \<open>step 4 and 5: the two selects\<close>
  note kb_out = kept_nth [OF bn bb(2)]
  note kb_in = kept_nth [OF bn bb(1)]
  have "select1 (m_din tfm) k = Some (length (kept dout0 b))"
  proof (rule select1_eqI)
    show "length (kept dout0 b) < length (m_din tfm)" using kb_out(2) lendin by simp
    show "m_din tfm ! length (kept dout0 b)"
      unfolding din using compacted_nth [OF bn bb(2), of din0 "[True]"] bb(1) by simp
    show "rank1 (m_din tfm) (length (kept dout0 b)) + 1 = k"
      using r [of b] bn by (simp add: k_def)
  qed
  then have 5: "select_query (m_din_select tfm) k = Inr (length (kept dout0 b))"
    using rdy(2) by (simp add: select_query_def)
  have "select1 (m_dout tfm) k = Some (length (kept din0 b))"
  proof (rule select1_eqI)
    show "length (kept din0 b) < length (m_dout tfm)" using kb_in(2) by (simp add: dout)
    show "m_dout tfm ! length (kept din0 b)"
      unfolding dout using compacted_nth [OF bn bb(1), of dout0 "[True]"] bb(2) by simp
    have "rank1 (m_dout tfm) (length (kept din0 b)) = length (both din0 dout0 b)"
      unfolding dout using bn by (intro rank1_map_kept) simp
    then show "rank1 (m_dout tfm) (length (kept din0 b)) + 1 = k"
      by (simp add: k_def both_commute [of din0 dout0])
  qed
  then have 6: "select_query (m_dout_select tfm) k = Inr (length (kept din0 b))"
    using rdy(3) by (simp add: select_query_def)
  \<comment> \<open>step 6: the bit of dout after the node\<close>
  have 7: "vec_at (m_dout tfm) (Suc (length (kept din0 b)))
             = Inr (m_dout tfm ! Suc (length (kept din0 b)))"
    using kb_in(2) by (simp add: vec_at_def dout)
  \<comment> \<open>none of the sums and differences leaves the 64-bit range\<close>
  have small: "length (kept bv x) < 2 ^ 64" if "x \<le> ?n" for bv x
    using length_kept_le [of bv x] that n64 by simp
  have w1: "add64 (m_C tfm ! (L0 ! j)) (rank_c (m_L tfm) (L0 ! j) (length (kept din0 j)))
              = length (kept dout0 ?j')"
    using small [of ?j' dout0] j'n by (simp add: add64_nowrap lfeq)
  have "length (kept dout0 ?j') + 1 \<le> ?n"
    using length_kept_le [of dout0 ?j'] j'n by simp
  then have w2: "add64 (length (kept dout0 ?j')) 1 = length (kept dout0 ?j') + 1"
    using n64 by (intro add64_nowrap) simp
  have w3: "sub64 (length (kept dout0 ?j')) (length (kept dout0 b))
              = length (kept dout0 ?j') - length (kept dout0 b)"
    using length_kept_mono [OF ble, of dout0] small [of ?j' dout0] j'n
    by (intro sub64_nowrap) simp_all
  have "length (kept din0 b) + 1 \<le> ?n"
    using length_kept_le [of din0 b] bn by simp
  then have w4: "add64 (length (kept din0 b)) 1 = Suc (length (kept din0 b))"
    using n64 by (simp add: add64_nowrap)
  have 8: "(if (din0 ! ?j') = False
            then ebind (select_query (m_din_select tfm) k)
                   (\<lambda>s. Inr (sub64 (length (kept dout0 ?j')) s))
            else Inr o1) = Inr o'"
    by (simp add: 5 o'_def w3)
  show "backwardstep tfm (length (kept din0 j), o1) =
           Inr (L0 ! j,
                if \<not> m_dout tfm ! (length (kept din0 b) + 1)
                then (add64 (length (kept din0 b)) o', 0) else (length (kept din0 b), o'))"
    unfolding backwardstep_def Let_def fst_conv snd_conv 1 ebind_Inr 2 w1 w2 3 4 8 6 w4 7
    by simp
qed

section \<open>Entry and exit columns\<close>

lemma lf_Suc_same:
  assumes "Suc j < length L" "L ! Suc j = L ! j"
  shows "lf L (Suc j) = Suc (lf L j)"
proof -
  have "take (Suc j) L = take j L @ [L ! j]" using assms(1) by (simp add: take_Suc_conv_app_nth)
  then have "rank_c L (L ! j) (Suc j) = Suc (rank_c L (L ! j) j)" by (simp add: rank_c_def)
  then show ?thesis using assms(2) by (simp add: lf_def)
qed

lemma lf_run:
  assumes "a + d < length L" "\<And>t. a < t \<Longrightarrow> t \<le> a + d \<Longrightarrow> L ! t = L ! (t - 1)"
  shows "lf L (a + d) = lf L a + d"
  using assms
proof (induction d)
  case 0
  show ?case by simp
next
  case (Suc d)
  have "lf L (a + d) = lf L a + d" using Suc by simp
  moreover have "L ! Suc (a + d) = L ! (a + d)" using Suc.prems(2) [of "Suc (a + d)"] by simp
  ultimately show ?case using lf_Suc_same [of "a + d" L] Suc.prems(1) by simp
qed

lemma dout_at_kept:
  assumes vm: "valid_marking L0 dout0 din0" and ci: "compacted L0 dout0 din0 tfm"
    and x: "x \<le> length L0" "din0 ! x"
  shows "m_dout tfm ! length (kept din0 x) = dout0 ! x"
proof (cases "x = length L0")
  case True
  from vm have "dout0 ! length L0" unfolding valid_marking_iff by blast
  moreover from ci have "m_dout tfm = map (\<lambda>t. dout0 ! t) (kept din0 (length L0)) @ [True]"
    unfolding compacted_def by blast
  ultimately show ?thesis using True by (simp add: nth_append)
next
  case False
  with x have "x < length L0" by simp
  moreover from ci have "m_dout tfm = map (\<lambda>t. dout0 ! t) (kept din0 (length L0)) @ [True]"
    unfolding compacted_def by blast
  ultimately show ?thesis using compacted_nth [of x "length L0" din0 dout0 "[True]"] x(2) by simp
qed

lemma dout_after_gap:
  assumes vm: "valid_marking L0 dout0 din0" and ci: "compacted L0 dout0 din0 tfm"
    and x: "x \<le> length L0" "0 < x" "\<not> din0 ! (x - 1)"
  shows "m_dout tfm ! length (kept din0 x)"
  using x
proof (induction "length L0 - x" arbitrary: x)
  case 0
  then have "x = length L0" by simp
  moreover from vm have "dout0 ! length L0" "din0 ! length L0" unfolding valid_marking_iff by blast+
  ultimately show ?case using dout_at_kept [OF vm ci, of x] by simp
next
  case (Suc n)
  from vm have V4: "\<And>j. j < length L0 \<Longrightarrow> (\<not> din0 ! j \<or> \<not> dout0 ! j) \<Longrightarrow>
          (din0 ! (j - 1) \<and> dout0 ! (j - 1))
          \<or> (din0 ! (j - 1) = din0 ! j \<and> dout0 ! (j - 1) = dout0 ! j)"
    unfolding valid_marking_iff by blast
  from Suc.hyps(2) have xn: "x < length L0" by simp
  show ?case
  proof (cases "din0 ! x")
    case True
    have "dout0 ! x"
    proof (rule ccontr)
      assume "\<not> dout0 ! x"
      with V4 [OF xn] True have "din0 ! (x - 1)" by auto
      with Suc.prems show False by simp
    qed
    then show ?thesis using dout_at_kept [OF vm ci, of x] xn True by simp
  next
    case False
    have "n = length L0 - Suc x" using Suc.hyps(2) by simp
    from Suc.hyps(1) [OF this] xn False have "m_dout tfm ! length (kept din0 (Suc x))" by simp
    then show ?thesis using False by (simp add: length_kept_Suc)
  qed
qed

lemma entry_column:
  assumes vm: "valid_marking L0 dout0 din0"
    and j: "j < length L0" "\<not> din0 ! j" "dout0 ! j"
    and t: "block_top din0 j \<le> t" "t \<le> j"
  shows "dout0 ! t"
proof -
  from vm have V4: "\<And>j. j < length L0 \<Longrightarrow> (\<not> din0 ! j \<or> \<not> dout0 ! j) \<Longrightarrow>
          (din0 ! (j - 1) \<and> dout0 ! (j - 1))
          \<or> (din0 ! (j - 1) = din0 ! j \<and> dout0 ! (j - 1) = dout0 ! j)"
    unfolding valid_marking_iff by blast
  have "s \<le> j - block_top din0 j \<Longrightarrow> dout0 ! (j - s)" for s
  proof (induction s)
    case 0
    show ?case using j(3) by simp
  next
    case (Suc s)
    then have IH: "dout0 ! (j - s)" and s: "Suc s \<le> j - block_top din0 j" by simp_all
    have "block_top din0 j < j - s" "j - s \<le> j" using s by simp_all
    then have nd: "\<not> din0 ! (j - s)" by (rule block_top_above)
    have "j - s < length L0" using j(1) by simp
    from V4 [OF this] nd IH have "dout0 ! (j - s - 1)" by auto
    then show ?case by simp
  qed
  from this [of "j - t"] t show ?thesis by simp
qed

lemma exit_or_interior_column:
  assumes vm: "valid_marking L0 dout0 din0"
    and r: "a + d < length L0" "\<And>s. 0 < s \<Longrightarrow> s \<le> d \<Longrightarrow> \<not> dout0 ! (a + s)"
    and s: "0 < s" "s \<le> d"
  shows "din0 ! (a + s) = din0 ! (a + 1)"
  using s
proof (induction s)
  case 0
  then show ?case by simp
next
  case (Suc s)
  from vm have V4: "\<And>j. j < length L0 \<Longrightarrow> (\<not> din0 ! j \<or> \<not> dout0 ! j) \<Longrightarrow>
          (din0 ! (j - 1) \<and> dout0 ! (j - 1))
          \<or> (din0 ! (j - 1) = din0 ! j \<and> dout0 ! (j - 1) = dout0 ! j)"
    unfolding valid_marking_iff by blast
  show ?case
  proof (cases "s = 0")
    case True
    then show ?thesis by simp
  next
    case False
    then have s: "0 < s" "s \<le> d" using Suc.prems by simp_all
    have IH: "din0 ! (a + s) = din0 ! (a + 1)" using Suc.IH s by simp
    have n1: "\<not> dout0 ! (a + Suc s)" using r(2) [of "Suc s"] Suc.prems by simp
    have n0: "\<not> dout0 ! (a + s)" using r(2) [of s] s by simp
    have "a + Suc s < length L0" using r(1) Suc.prems by simp
    from V4 [OF this] n1 n0 have "din0 ! (a + s) = din0 ! (a + Suc s)" by auto
    with IH show ?thesis by simp
  qed
qed

section \<open>The backward step simulates LF\<close>

text \<open>
  A row \<open>r\<close> of the full column is represented by the position
  \<open>(number of kept rows above the top of its block, distance to that top)\<close>. One backward
  step of the index from the position of \<open>r\<close> returns the symbol of \<open>r\<close> and the position
  of \<open>lf L0 r\<close>.
\<close>

lemma run_const:
  assumes "\<And>t. a < t \<Longrightarrow> t \<le> a + d \<Longrightarrow> L ! t = L ! (t - 1)"
  shows "L ! (a + d) = L ! a"
  using assms
proof (induction d)
  case 0
  show ?case by simp
next
  case (Suc d)
  have "L ! (a + d) = L ! a" using Suc by simp
  moreover have "L ! Suc (a + d) = L ! (a + d)" using Suc.prems [of "Suc (a + d)"] by simp
  ultimately show ?case by simp
qed

lemma tunneled_sim:
  assumes vm: "valid_marking L0 dout0 din0" and ci: "compacted L0 dout0 din0 tfm"
    and r: "r < length L0" and n64: "length L0 < 2 ^ 64"
  shows "backwardstep tfm (length (kept din0 (block_top din0 r)), r - block_top din0 r)
           = Inr (L0 ! r, (length (kept din0 (block_top din0 (lf L0 r))), lf L0 r - block_top din0 (lf L0 r)))"
proof -
  let ?n = "length L0"
  let ?lam = "\<lambda>x. length (kept din0 x)"
  let ?phi = "\<lambda>x. length (kept dout0 x)"
  from vm have first: "dout0 ! 0" "din0 ! 0"
    and pair: "\<And>t. t < ?n \<Longrightarrow> din0 ! t = dout0 ! lf L0 t"
    and V3: "\<And>t. t < ?n \<Longrightarrow> \<not> din0 ! t \<Longrightarrow> L0 ! t = L0 ! (t - 1)"
    and V4: "\<And>j. j < ?n \<Longrightarrow> (\<not> din0 ! j \<or> \<not> dout0 ! j) \<Longrightarrow>
          (din0 ! (j - 1) \<and> dout0 ! (j - 1))
          \<or> (din0 ! (j - 1) = din0 ! j \<and> dout0 ! (j - 1) = dout0 ! j)"
    unfolding valid_marking_iff by blast+
  define a where "a = block_top din0 r"
  define d where "d = r - a"
  have ar: "a \<le> r" unfolding a_def by (rule block_top_le)
  have r_eq: "r = a + d" using ar by (simp add: d_def)
  have an: "a < ?n" using ar r by simp
  have ia: "din0 ! a" unfolding a_def using first(2) by (rule block_top_set)
  have gap: "\<not> din0 ! t" if "a < t" "t \<le> a + d" for t
    using that r_eq unfolding a_def by (intro block_top_above [of din0 r]) simp_all
  have same: "L0 ! t = L0 ! (t - 1)" if "a < t" "t \<le> a + d" for t
    using V3 [of t] gap [OF that] that r r_eq by simp
  have Lr: "L0 ! r = L0 ! a" unfolding r_eq using same by (rule run_const)
  define j' where "j' = lf L0 a"
  have lfs: "lf L0 (a + s) = j' + s" if "s \<le> d" for s
    unfolding j'_def using that r r_eq same by (intro lf_run) simp_all
  have r': "lf L0 r = j' + d" using lfs [of d] r_eq by simp
  have j'n: "j' + d < ?n" using lf_bound [OF r] r' by simp
  have oj': "dout0 ! j'" using pair [OF an] ia by (simp add: j'_def)
  define b where "b = block_top (both_bits din0 dout0) (lf L0 a)"
  define o' where "o' = (if din0 ! lf L0 a then d
                       else length (kept dout0 (lf L0 a)) - length (kept dout0 b))"
  note st = tunneled_step [OF vm ci an ia n64 b_def o'_def]
  have bj: "b \<le> j'" and bb: "din0 ! b" "dout0 ! b"
    and nob: "\<And>t. b < t \<Longrightarrow> t \<le> j' \<Longrightarrow> \<not> (din0 ! t \<and> dout0 ! t)"
    using st(2-5) by (simp_all add: j'_def)
  have step: "backwardstep tfm (?lam a, d) =
           Inr (L0 ! r,
                if \<not> m_dout tfm ! (?lam b + 1) then (add64 (?lam b) o', 0) else (?lam b, o'))"
    using st(1) Lr by simp
  have b_both: "b = j'" if "din0 ! j'"
  proof (rule ccontr)
    assume "b \<noteq> j'"
    with bj have "b < j'" by simp
    from nob [OF this] that oj' show False by simp
  qed
  have after_gap: "m_dout tfm ! (?lam x + 1)" if x: "din0 ! x" "\<not> din0 ! (x + 1)" "x + 1 < ?n" for x
  proof -
    have "m_dout tfm ! ?lam (x + 2)"
      using x by (intro dout_after_gap [OF vm ci]) simp_all
    moreover have "?lam (x + 2) = ?lam x + 1"
      using x(1,2) length_kept_Suc [of din0 x] length_kept_Suc [of din0 "Suc x"] by simp
    ultimately show ?thesis by simp
  qed
  have goal: "(if \<not> m_dout tfm ! (?lam b + 1) then (?lam b + o', 0) else (?lam b, o'))
                = (?lam (block_top din0 (j' + d)), j' + d - block_top din0 (j' + d))"
  proof (cases "d = 0")
    case d0: True
    show ?thesis
    proof (cases "din0 ! j'")
      case True
      then have "b = j'" by (rule b_both)
      moreover have "o' = 0" using True d0 by (simp add: o'_def j'_def)
      moreover have "block_top din0 j' = j'" using True by (rule block_top_id)
      ultimately show ?thesis using d0 by simp
    next
      case False
      define a' where "a' = block_top din0 j'"
      have a'j: "a' \<le> j'" unfolding a'_def by (rule block_top_le)
      have ia': "din0 ! a'" unfolding a'_def using first(2) by (rule block_top_set)
      have a'lt: "a' < j'" using a'j ia' False by (cases "a' = j'") simp_all
      have gap': "\<not> din0 ! t" if "a' < t" "t \<le> j'" for t
        using that unfolding a'_def by (rule block_top_above)
      have col: "dout0 ! t" if "a' \<le> t" "t \<le> j'" for t
      proof -
        have "j' < ?n" using j'n by simp
        from entry_column [OF vm this False oj'] that show ?thesis unfolding a'_def by blast
      qed
      have "b = a'"
      proof -
        have "a' \<le> b"
        proof (rule ccontr)
          assume "\<not> a' \<le> b"
          then have "b < a'" by simp
          from nob [OF this a'j] ia' col [of a'] a'j show False by simp
        qed
        moreover have "b \<le> a'"
        proof (rule ccontr)
          assume "\<not> b \<le> a'"
          then have "a' < b" by simp
          from gap' [OF this bj] bb(1) show False by simp
        qed
        ultimately show ?thesis by simp
      qed
      have "?phi (a' + (j' - a')) = ?phi a' + (j' - a')"
        by (rule length_kept_run) (use col in auto)
      then have "?phi j' - ?phi a' = j' - a'" using a'j by simp
      then have o': "o' = j' - a'" using False \<open>b = a'\<close> by (simp add: o'_def j'_def)
      have "\<not> din0 ! (a' + 1)" using gap' [of "a' + 1"] a'lt by simp
      then have "m_dout tfm ! (?lam a' + 1)"
        using ia' a'lt j'n by (intro after_gap) simp_all
      then show ?thesis using \<open>b = a'\<close> o' d0 by (simp add: a'_def)
    qed
  next
    case dpos: False
    have ndin: "\<not> din0 ! (a + s)" if "0 < s" "s \<le> d" for s
      using gap [of "a + s"] that by simp
    have ndout: "\<not> dout0 ! (j' + s)" if "0 < s" "s \<le> d" for s
    proof -
      have "a + s < ?n" using that r r_eq by simp
      from pair [OF this] lfs [of s] that ndin [OF that] show ?thesis by simp
    qed
    have n1: "\<not> dout0 ! (j' + 1)" using ndout [of 1] dpos by simp
    have "j' + 1 < ?n" using j'n dpos by simp
    from V4 [OF this] n1 oj' have ij': "din0 ! j'" by auto
    then have bj': "b = j'" by (rule b_both)
    have o': "o' = d" using ij' by (simp add: o'_def j'_def)
    have col: "din0 ! (j' + s) = din0 ! (j' + 1)" if "0 < s" "s \<le> d" for s
      using exit_or_interior_column [OF vm j'n _ that] ndout by blast
    show ?thesis
    proof (cases "din0 ! (j' + 1)")
      case True
      have all: "din0 ! t" if "j' \<le> t" "t < j' + Suc d" for t
      proof (cases "t = j'")
        case True
        then show ?thesis using ij' by simp
      next
        case False
        then have "0 < t - j'" "t - j' \<le> d" using that by simp_all
        from col [OF this] that \<open>din0 ! (j' + 1)\<close> show ?thesis by simp
      qed
      have "?lam (j' + d) = ?lam j' + d"
        by (rule length_kept_run) (use all in auto)
      moreover have "m_dout tfm ! ?lam (j' + 1) = dout0 ! (j' + 1)"
        using True j'n dpos by (intro dout_at_kept [OF vm ci]) simp_all
      moreover have "?lam (j' + 1) = ?lam j' + 1" using ij' length_kept_Suc [of din0 j'] by simp
      moreover have "block_top din0 (j' + d) = j' + d" using all [of "j' + d"] by (intro block_top_id) simp
      ultimately show ?thesis using bj' o' n1 by simp
    next
      case False
      have none: "\<not> din0 ! t" if "j' < t" "t \<le> j' + d" for t
      proof -
        have "0 < t - j'" "t - j' \<le> d" using that by simp_all
        from col [OF this] that False show ?thesis by simp
      qed
      have "block_top din0 (j' + d) = j'" using ij' none by (intro block_top_eqI) simp_all
      moreover have "m_dout tfm ! (?lam j' + 1)"
        using ij' False j'n dpos by (intro after_gap) simp_all
      ultimately show ?thesis using bj' o' by simp
    qed
  qed
  have "add64 (?lam b) o' = ?lam b + o'" if "\<not> m_dout tfm ! (?lam b + 1)"
  proof -
    from goal that have "?lam b + o' = ?lam (block_top din0 (j' + d))" by simp
    also have "\<dots> \<le> block_top din0 (j' + d)" by (rule length_kept_le)
    also have "\<dots> \<le> j' + d" by (rule block_top_le)
    finally have "?lam b + o' < 2 ^ 64" using j'n n64 by simp
    then show ?thesis by (rule add64_nowrap)
  qed
  then have "(if \<not> m_dout tfm ! (?lam b + 1) then (add64 (?lam b) o', 0) else (?lam b, o'))
           = (if \<not> m_dout tfm ! (?lam b + 1) then (?lam b + o', 0) else (?lam b, o'))"
    by simp
  then show ?thesis using step goal r' by (simp add: a_def [symmetric] d_def [symmetric])
qed

section \<open>Indexes loaded from the files of a text\<close>

lemma unat_word_of_nat_list:
  "\<forall>x \<in> set L. x < 256 \<Longrightarrow> map unat (map word_of_nat L :: u8 list) = L"
proof (induction L)
  case Nil
  show ?case by simp
next
  case (Cons x L)
  then have "unat (word_of_nat x :: u8) = x" by (simp add: unsigned_of_nat take_bit_nat_eq_self)
  with Cons show ?case by simp
qed

lemma symbol_frequencies_nat:
  assumes "symbol_frequencies (map word_of_nat L) = Inr C" "\<forall>x \<in> set L. x < 256" "c \<in> set L"
  shows "c < length C \<and> C ! c = length (filter (\<lambda>x. x < c) L)"
proof -
  let ?Lb = "map word_of_nat L :: u8 list"
  have bk: "map unat ?Lb = L" using assms(2) by (rule unat_word_of_nat_list)
  have "\<not> (\<exists>e. count_symbols ?Lb (replicate 255 0) = Inl e)"
    using assms(1) by (auto simp: symbol_frequencies_def split: sum.splits)
  then have small: "\<forall>b \<in> set ?Lb. unat b + 1 < 255"
    by (auto simp: count_symbols_fails_iff not_le)
  have "c \<in> set (map unat ?Lb)" using assms(3) bk by simp
  then obtain b where b: "b \<in> set ?Lb" "c = unat b" by auto
  then have c: "c < 255" using small by auto
  have "C ! c = length (filter (\<lambda>b. unat b < c) ?Lb)"
    using symbol_frequencies_counts(2) [OF assms(1) c] .
  also have "\<dots> = length (filter (\<lambda>x. x < c) (map unat ?Lb))"
    unfolding filter_map length_map comp_def ..
  also have "\<dots> = length (filter (\<lambda>x. x < c) L)"
    unfolding bk ..
  finally have "C ! c = length (filter (\<lambda>x. x < c) L)" .
  then show ?thesis
    using symbol_frequencies_counts(1) [OF assms(1) c] c by simp
qed

lemma bwt_set:
  assumes T: "terminated T"
  shows "set (bwt T) \<subseteq> set T"
proof
  fix x assume "x \<in> set (bwt T)"
  then obtain s where s: "s \<in> set (bwt_rows T)" "x = last s" by (auto simp: bwt_def)
  then have "s \<in> set (rotations T)" using bwt_rows_props(2) [OF T] by simp
  then obtain k where k: "k < length T" "s = rotate k T" by (auto simp: set_rotations)
  then have "s \<noteq> []" by auto
  then have "last s \<in> set s" by simp
  then show "x \<in> set T" using s(2) k(2) by simp
qed

lemma sup_ready_init: "sup_ready (init_support v) = Some v"
  by (simp add: init_support_def sup_ready_def)

lemma pfwg_files_loaded:
  assumes T: "terminated T" and b253: "\<forall>b \<in> set T. b \<le> 253"
    and files: "pfwg_files fs basename T dout0 din0"
  shows "valid_marking (map unat (bwt T)) dout0 din0"
    and "\<exists>tfm. construct_from_pfwg fs basename = Inr (tfm, [])
           \<and> text_len tfm = length (load_vector_from_file fs basename)
           \<and> compacted (map unat (bwt T)) dout0 din0 tfm"
proof -
  let ?L0 = "map unat (bwt T)"
  let ?ks = "kept din0 (length ?L0)"
  let ?Lc = "map (\<lambda>t. ?L0 ! t) ?ks"
  let ?dout = "map (\<lambda>t. dout0 ! t) ?ks @ [True]"
  let ?din = "map (\<lambda>t. din0 ! t) (kept dout0 (length ?L0)) @ [True]"
  from files show vm: "valid_marking ?L0 dout0 din0" by (simp add: pfwg_files_def)
  then have len: "length dout0 = length ?L0 + 1" "length din0 = length ?L0 + 1"
    unfolding valid_marking_iff by blast+
  from remove_redundant_entries_eq [OF len] obtain s0 where
    s0: "remove_redundant_entries ?L0 dout0 din0 =
               Inr (s0\<lparr>c_dout := ?dout, c_p := length ?ks + 1,
                        c_din := ?din, c_q := length (kept dout0 (length ?L0)) + 1\<rparr>)"
      "c_L_buf s0 = ?Lc"
    by blast
  from files have fL: "fs (basename @ ''.L'') = Some (map word_of_nat ?Lc)"
    unfolding pfwg_files_def s0(1) using s0(2) by simp
  from files obtain db where db: "fs (basename @ ''.din'') = Some db"
    "unpacked_bits db (length ?Lc + 1) = ?din"
    unfolding pfwg_files_def s0(1) using s0(2) by (auto split: option.splits)
  from files obtain ob where ob: "fs (basename @ ''.dout'') = Some ob"
    "unpacked_bits ob (length ?Lc + 1) = ?dout"
    unfolding pfwg_files_def s0(1) using s0(2) by (auto split: option.splits)
  define Lb :: "u8 list" where "Lb = map word_of_nat ?Lc"
  have load: "Lb = load_vector_from_file fs (basename @ ''.L'')"
    by (simp add: load_vector_from_file_def fL Lb_def)
  have small: "\<forall>x \<in> set ?Lc. x < 256"
  proof
    fix x assume "x \<in> set ?Lc"
    then obtain t where "t \<in> set ?ks" "x = ?L0 ! t" by auto
    then have "t < length (bwt T)" "x = unat (bwt T ! t)" by (simp_all add: set_kept)
    then show "x < 256" using unsigned_less [of "bwt T ! t"] by simp
  qed
  have bk: "map unat Lb = ?Lc" unfolding Lb_def using small by (rule unat_word_of_nat_list)
  have ok: "\<forall>b \<in> set Lb. unat b \<le> 253"
  proof
    fix b assume "b \<in> set Lb"
    then obtain t where t: "t \<in> set ?ks" "b = word_of_nat (?L0 ! t)" by (auto simp: Lb_def)
    then have tl: "t < length (bwt T)" by (simp add: set_kept)
    then have "b = bwt T ! t" using t(2) by simp
    then have "b \<in> set T" using bwt_set [OF T] tl by (metis nth_mem subsetD)
    then have "b \<le> 253" using b253 by blast
    then show "unat b \<le> 253" by (simp add: word_le_nat_alt)
  qed
  from symbol_frequencies_ok [OF ok] obtain C where sf: "symbol_frequencies Lb = Inr C" by blast
  define tfm where "tfm =
     \<lparr>text_len = length (load_vector_from_file fs basename),
      m_L = map unat Lb, m_C = C,
      m_dout = unpacked_bits ob (length Lb + 1),
      m_dout_rank = init_support (unpacked_bits ob (length Lb + 1)),
      m_dout_select = init_support (unpacked_bits ob (length Lb + 1)),
      m_din = unpacked_bits db (length Lb + 1),
      m_din_rank = init_support (unpacked_bits db (length Lb + 1)),
      m_din_select = init_support (unpacked_bits db (length Lb + 1))\<rparr>"
  have run: "construct_from_pfwg fs basename = Inr (tfm, [])"
    unfolding tfm_def by (rule construct_from_pfwg_eq [OF db(1) ob(1) load sf])
  have lenLb: "length Lb = length ?Lc" by (simp add: Lb_def)
  have f: "m_L tfm = ?Lc" "m_dout tfm = ?dout" "m_din tfm = ?din" "m_C tfm = C"
    using bk ob(2) db(2) by (simp_all add: tfm_def lenLb)
  have rdy: "sup_ready (m_din_rank tfm) = Some (m_din tfm)"
      "sup_ready (m_din_select tfm) = Some (m_din tfm)"
      "sup_ready (m_dout_select tfm) = Some (m_dout tfm)"
    by (simp_all add: tfm_def sup_ready_init)
  have sf': "symbol_frequencies (map word_of_nat (m_L tfm)) = Inr (m_C tfm)"
    using sf unfolding f(1) f(4) Lb_def .
  have small': "\<forall>x \<in> set (m_L tfm). x < 256" using small unfolding f(1) .
  have "\<forall>c \<in> set (m_L tfm).
        c < length (m_C tfm) \<and> m_C tfm ! c = length (filter (\<lambda>x. x < c) (m_L tfm))"
    using symbol_frequencies_nat [OF sf' small'] by blast
  then have "compacted ?L0 dout0 din0 tfm"
    unfolding compacted_def using f(1-3) rdy by blast
  moreover have "text_len tfm = length (load_vector_from_file fs basename)"
    by (simp add: tfm_def)
  ultimately show "\<exists>tfm. construct_from_pfwg fs basename = Inr (tfm, [])
           \<and> text_len tfm = length (load_vector_from_file fs basename)
           \<and> compacted (map unat (bwt T)) dout0 din0 tfm"
    using run by blast
qed

lemma tunneled_walk:
  assumes vm: "valid_marking L0 dout0 din0" and ci: "compacted L0 dout0 din0 tfm"
    and r: "r < length L0" and n64: "length L0 < 2 ^ 64"
  shows "backwardsteps tfm t (length (kept din0 (block_top din0 r)), r - block_top din0 r)
           = Inr (map (\<lambda>s. L0 ! ((lf L0 ^^ s) r)) [0..<t],
                  (length (kept din0 (block_top din0 ((lf L0 ^^ t) r))),
                   (lf L0 ^^ t) r - block_top din0 ((lf L0 ^^ t) r)))"
  using r
proof (induction t arbitrary: r)
  case 0
  show ?case by simp
next
  case (Suc t)
  have r': "lf L0 r < length L0" using Suc.prems by (rule lf_bound)
  note IH = Suc.IH [OF r']
  have sw: "(lf L0 ^^ s) (lf L0 r) = (lf L0 ^^ Suc s) r" for s
    by (simp add: funpow_swap1)
  have "map (\<lambda>s. L0 ! ((lf L0 ^^ s) r)) [0..<Suc t]
          = L0 ! r # map (\<lambda>s. L0 ! ((lf L0 ^^ Suc s) r)) [0..<t]"
    by (simp add: upt_conv_Cons map_Suc_upt [symmetric] del: upt_Suc funpow.simps)
  then show ?case
    using tunneled_sim [OF vm ci Suc.prems n64] IH
    by (simp add: sw del: upt_Suc funpow.simps)
qed

section \<open>Inversion\<close>

lemma untunnel_loop_steps:
  assumes "backwardsteps tfm k p = Inr (cs, q)" "i + k = tfm_size tfm"
    "length original = tfm_size tfm"
  shows "untunnel_loop tfm i p original = Inr (rev (map word_of_nat cs) @ drop k original)"
  using assms
proof (induction k arbitrary: i p original cs)
  case 0
  then have "\<not> i < tfm_size tfm" "cs = []" by auto
  then show ?case by (simp add: untunnel_loop.simps [of tfm i])
next
  case (Suc k)
  from Suc.prems(1) obtain c p' cs' where
    st: "backwardstep tfm p = Inr (c, p')" and rest: "backwardsteps tfm k p' = Inr (cs', q)"
    and cs: "cs = c # cs'"
    by (auto simp: ebind_eq_Inr split: prod.splits)
  have i: "i < tfm_size tfm" and k: "tfm_size tfm - Suc i = k" and kl: "k < length original"
    using Suc.prems(2,3) by simp_all
  let ?o = "original[k := word_of_nat c]"
  have IH: "untunnel_loop tfm (i + 1) p' ?o = Inr (rev (map word_of_nat cs') @ drop k ?o)"
    using Suc.IH [OF rest, of "i + 1" ?o] Suc.prems(2,3) by simp
  have d: "drop k ?o = word_of_nat c # drop (Suc k) original"
    using kl by (simp add: Cons_nth_drop_Suc [symmetric, of k ?o])
  have "untunnel_loop tfm i p original = untunnel_loop tfm (i + 1) p' ?o"
    using i kl by (simp add: untunnel_loop.simps [of tfm i] st k vec_set_def)
  then show ?case unfolding IH d cs by simp
qed

lemma untunnel_steps:
  assumes "backwardsteps tfm (tfm_size tfm) (tfm_end tfm) = Inr (cs, q)"
  shows "untunnel tfm f fs = Inr (fs(f \<mapsto> rev (map word_of_nat cs)))"
  using untunnel_loop_steps [OF assms, of 0 "replicate (tfm_size tfm) 0"]
  by (simp add: untunnel_def)

lemma bwt_length:
  assumes "terminated T"
  shows "length (map unat (bwt T)) = length T"
  using bwt_rows_props(3) [OF assms] by (simp add: bwt_def)

lemma bwt_walk_chars:
  assumes T: "terminated T"
  shows "map (\<lambda>s. map unat (bwt T) ! ((lf (map unat (bwt T)) ^^ s) 0)) [0..<length T - 1]
           = map unat (rev (butlast T))"
proof (rule nth_equalityI)
  show "length (map (\<lambda>s. map unat (bwt T) ! ((lf (map unat (bwt T)) ^^ s) 0)) [0..<length T - 1])
          = length (map unat (rev (butlast T)))"
    by simp
next
  fix s
  assume "s < length (map (\<lambda>s. map unat (bwt T) ! ((lf (map unat (bwt T)) ^^ s) 0)) [0..<length T - 1])"
  then have s: "Suc s < length T" by simp
  then have "rev (butlast T) ! s = T ! (length T - 2 - s)"
    by (simp add: rev_nth nth_butlast Suc_diff_Suc numeral_2_eq_2)
  with s show "map (\<lambda>s. map unat (bwt T) ! ((lf (map unat (bwt T)) ^^ s) 0)) [0..<length T - 1] ! s
                 = map unat (rev (butlast T)) ! s"
    using bwt_walk_char [OF T s] by simp
qed

lemma bwt_walk_all_chars:
  assumes T: "terminated T"
  shows "map (\<lambda>s. map unat (bwt T) ! ((lf (map unat (bwt T)) ^^ s) 0)) [0..<length T]
           = map unat (rev (butlast T)) @ [unat (last T)]"
proof -
  from T have "T \<noteq> []" by (simp add: terminated_def)
  then have S: "length T = Suc (length T - 1)" by simp
  have "[0..<length T] = [0..<length T - 1] @ [length T - 1]"
    by (subst S) simp
  then show ?thesis
    using bwt_walk_chars [OF T] bwt_walk_terminator [OF T] by simp
qed

lemma compacted_walk_end:
  assumes T: "terminated T" and n64: "length T < 2 ^ 64"
    and vm: "valid_marking (map unat (bwt T)) dout0 din0"
    and ci: "compacted (map unat (bwt T)) dout0 din0 tfm"
  shows "\<exists>pos. backwardsteps tfm t (tfm_end tfm)
            = Inr (map (\<lambda>s. map unat (bwt T) ! ((lf (map unat (bwt T)) ^^ s) 0)) [0..<t], pos)"
proof -
  from T have "T \<noteq> []" by (simp add: terminated_def)
  then have r: "0 < length (map unat (bwt T))" using bwt_length [OF T] by simp
  have n: "length (map unat (bwt T)) < 2 ^ 64" using bwt_length [OF T] n64 by simp
  from tunneled_walk [OF vm ci r n, of t]
  show ?thesis by (simp add: tfm_end_def kept_def)
qed

subsection \<open>The example text\<close>

lemma terminated_abab: "terminated T_abab"
  by code_simp

lemma bwt_abab: "map unat (bwt T_abab) = [2, 2, 0, 1, 1]"
  by code_simp

lemma lf_abab: "map (lf [2, 2, 0, 1, 1]) [0..<5] = [3, 4, 0, 1, 2]"
  by code_simp

lemma valid_marking_abab: "valid_marking [2, 2, 0, 1, 1] dout_abab din_abab"
  by code_simp

lemma compact_abab:
  "remove_redundant_entries [2, 2, 0, 1, 1] dout_abab din_abab
     = Inr \<lparr>c_L_buf = [2, 2, 0, 1], c_p = 5, c_q = 5,
            c_dout = [True, True, False, True, True], c_din = [True, True, True, False, True]\<rparr>"
  by code_simp

lemma unpacked_abab:
  "unpacked_bits [0xE8] 5 = [True, True, True, False, True]"
  "unpacked_bits [0xD8] 5 = [True, True, False, True, True]"
  by code_simp+

lemma pfwg_files_abab:
  "pfwg_files fs_abab ''abab'' T_abab dout_abab din_abab"
  "pfwg_files fs_abab_n ''abab'' T_abab dout_abab din_abab"
  by code_simp+

lemma symbol_frequencies_abab:
  "symbol_frequencies [2, 2, 0, 1] = Inr ([0, 1, 2] @ replicate 252 4)"
  by code_simp

lemma construct_abab_n: "construct_from_pfwg fs_abab_n ''abab'' = Inr (tfm_abab, [])"
  by code_simp

lemma untunnel_loop_abab:
  "untunnel_loop tfm_abab 0 (tfm_end tfm_abab) (replicate (tfm_size tfm_abab) 0) = Inr [0, 1, 2, 1, 2]"
  by code_simp

subsection \<open>The index assembled by the pipeline\<close>

text \<open>
  \<open>construct_tfm_index\<close> leaves \<open>din_select\<close> default-constructed, and the backward step
  queries \<open>din_select\<close> when the row it reaches is an entry of a tunnel below the first.
  On the compacted vectors of the example the first two steps succeed and the third
  reaches that query. The statements about inversion below are therefore about indexes
  loaded by \<open>construct_from_pfwg\<close>, which initialises all four supports.
\<close>

lemma pipeline_index_abab:
  "ebind (construct_tfm_index 5 [2, 2, 0, 1] [True, True, False, True, True]
            [True, True, True, False, True])
     (\<lambda>tfm. backwardsteps tfm 2 (tfm_end tfm)) = Inr ([2, 1], (1, 0))"
  "ebind (construct_tfm_index 5 [2, 2, 0, 1] [True, True, False, True, True]
            [True, True, True, False, True])
     (\<lambda>tfm. backwardsteps tfm 3 (tfm_end tfm)) = Inl NoSupport"
  by code_simp+

subsection \<open>Inversion of a loaded index\<close>

text \<open>
  Claim C1, as stated, says that for a text \<open>T\<close> with a unique minimal terminator and
  a well-formed index over \<open>T\<close> of text length \<open>n\<close>, \<open>untunnel\<close> reconstructs the original
  text. The index \<open>tfm_abab\<close> of \<open>a b a b $\<close>, loaded by \<open>construct_from_pfwg\<close> from
  \<open>fs_abab_n\<close>, is well formed and has text length \<open>n = 5\<close>; the buffer \<open>untunnel\<close>
  writes is \<open>$ a b a b\<close>, the text rotated by one: the first character emitted, placed at
  position \<open>n - 1\<close>, is the character before the terminator, and the terminator, emitted
  last, lands at position 0.
\<close>

theorem untunnel_rotation_counterexample:
  "terminated T_abab \<and> pfwg_files fs_abab_n ''abab'' T_abab dout_abab din_abab
   \<and> construct_from_pfwg fs_abab_n ''abab'' = Inr (tfm_abab, [])
   \<and> well_formed tfm_abab \<and> tfm_size tfm_abab = length T_abab
   \<and> untunnel tfm_abab ''abab.untunneled'' Map.empty
         = Inr [''abab.untunneled'' \<mapsto> [0, 1, 2, 1, 2]]
   \<and> T_abab = [1, 2, 1, 2, 0] \<and> [0, 1, 2, 1, 2] \<noteq> T_abab"
proof -
  have "tfm_size tfm_abab = length T_abab"
    by (simp add: tfm_size_def tfm_abab_def T_abab_def)
  moreover have "untunnel tfm_abab ''abab.untunneled'' Map.empty
         = Inr [''abab.untunneled'' \<mapsto> [0, 1, 2, 1, 2]]"
    by (simp add: untunnel_def untunnel_loop_abab)
  moreover have "T_abab = [1, 2, 1, 2, 0]" "[0, 1, 2, 1, 2] \<noteq> T_abab"
    by (simp_all add: T_abab_def)
  ultimately show ?thesis
    using terminated_abab well_formed_abab pfwg_files_abab(2) construct_abab_n by blast
qed

text \<open>
  Claim C1, amended. Let \<open>T\<close> be a text of length \<open>n < 2\<^sup>6\<^sup>4\<close> with a unique minimal
  terminator, all of whose bytes are at most 253, and let the files \<open>FILE.L\<close>,
  \<open>FILE.din\<close> and \<open>FILE.dout\<close> hold the tunneled transform of \<open>T\<close> while \<open>FILE\<close> holds
  \<open>T\<close> without its terminator. Then \<open>construct_from_pfwg\<close> returns an index of size
  \<open>n - 1\<close>; \<open>n - 1\<close> backward steps from \<open>end() = (0, 0)\<close> emit the characters of \<open>T\<close>
  without its terminator in reverse order; and \<open>untunnel\<close>, which places the character
  emitted at iteration \<open>i\<close> at position \<open>size - 1 - i\<close> of a buffer of \<open>size = n - 1\<close>
  characters, writes the content of \<open>FILE\<close>.
\<close>

theorem untunnel_inverts:
  assumes T: "terminated T" and b253: "\<forall>b \<in> set T. b \<le> 253" and n64: "length T < 2 ^ 64"
    and files: "pfwg_files fs basename T dout0 din0"
    and orig: "fs basename = Some (butlast T)"
  shows "\<exists>tfm. construct_from_pfwg fs basename = Inr (tfm, [])
           \<and> tfm_size tfm = length T - 1
           \<and> (\<exists>pos. backwardsteps tfm (length T - 1) (tfm_end tfm)
                       = Inr (map unat (rev (butlast T)), pos))
           \<and> untunnel tfm f fs = Inr (fs(f \<mapsto> butlast T))"
proof -
  from pfwg_files_loaded [OF T b253 files] obtain tfm where
    vm: "valid_marking (map unat (bwt T)) dout0 din0"
    and run: "construct_from_pfwg fs basename = Inr (tfm, [])"
    and tl: "text_len tfm = length (load_vector_from_file fs basename)"
    and ci: "compacted (map unat (bwt T)) dout0 din0 tfm"
    by blast
  have sz: "tfm_size tfm = length T - 1"
    using tl orig by (simp add: tfm_size_def load_vector_from_file_def)
  from compacted_walk_end [OF T n64 vm ci, of "length T - 1"] obtain pos where
    steps: "backwardsteps tfm (length T - 1) (tfm_end tfm) = Inr (map unat (rev (butlast T)), pos)"
    unfolding bwt_walk_chars [OF T] by blast
  have w: "rev (map word_of_nat (map unat xs)) = rev xs" for xs :: "u8 list"
    by (simp add: comp_def)
  from steps have "backwardsteps tfm (tfm_size tfm) (tfm_end tfm)
                     = Inr (map unat (rev (butlast T)), pos)"
    unfolding sz .
  from untunnel_steps [OF this, of f fs]
  have "untunnel tfm f fs = Inr (fs(f \<mapsto> butlast T))" unfolding w by simp
  with run sz steps show ?thesis by blast
qed

theorem untunnel_inverts_witness:
  "terminated T_abab \<and> pfwg_files fs_abab ''abab'' T_abab dout_abab din_abab
   \<and> fs_abab ''abab'' = Some (butlast T_abab)
   \<and> (\<exists>tfm. construct_from_pfwg fs_abab ''abab'' = Inr (tfm, [])
         \<and> tfm_size tfm = 4
         \<and> (\<exists>pos. backwardsteps tfm 4 (tfm_end tfm) = Inr ([2, 1, 2, 1], pos))
         \<and> untunnel tfm ''abab.untunneled'' fs_abab
             = Inr (fs_abab(''abab.untunneled'' \<mapsto> [1, 2, 1, 2])))"
proof -
  have b: "\<forall>b \<in> set T_abab. b \<le> 253" by (simp add: T_abab_def)
  have n: "length T_abab < 2 ^ 64" by (simp add: T_abab_def)
  have o: "fs_abab ''abab'' = Some (butlast T_abab)" by (simp add: fs_abab_def T_abab_def)
  have t: "length T_abab - 1 = 4" "butlast T_abab = [1, 2, 1, 2]"
    "map unat (rev [1, 2, 1, 2 :: u8]) = [2, 1, 2, 1]"
    by (simp_all add: T_abab_def)
  from untunnel_inverts [OF terminated_abab b n pfwg_files_abab(1) o, of "''abab.untunneled''"]
  have "\<exists>tfm. construct_from_pfwg fs_abab ''abab'' = Inr (tfm, [])
         \<and> tfm_size tfm = 4
         \<and> (\<exists>pos. backwardsteps tfm 4 (tfm_end tfm) = Inr ([2, 1, 2, 1], pos))
         \<and> untunnel tfm ''abab.untunneled'' fs_abab
             = Inr (fs_abab(''abab.untunneled'' \<mapsto> [1, 2, 1, 2]))"
    unfolding t .
  with terminated_abab pfwg_files_abab(1) o show ?thesis by blast
qed
end
